theory Spec2Isabelle
  imports Main "HOL-Library.Word"
begin

unbundle bit_operations_syntax

section \<open>JavaScript numbers and 32-bit operators\<close>

text \<open>
  The codec is TypeScript. Every number that the modelled functions handle is an
  integer below \<open>2 ^ 53\<close> in absolute value, where the arithmetic of IEEE doubles is
  exact, so numbers are modelled as \<open>int\<close>. The bitwise operators first convert their
  operands with ToInt32 or ToUint32 (ECMAScript 7.1.6 and 7.1.7) and the shifts use the
  shift count modulo 32. The results of \<open>&\<close>, \<open>|\<close>, \<open>^\<close>, \<open>~\<close>, \<open><<\<close> and \<open>>>\<close> are
  signed 32-bit numbers, the result of \<open>>>>\<close> is an unsigned one.
\<close>

definition toUint32 :: "int \<Rightarrow> int" where
  "toUint32 x = x mod 2 ^ 32"

definition toInt32 :: "int \<Rightarrow> int" where
  "toInt32 x = (let u = x mod 2 ^ 32 in if u \<ge> 2 ^ 31 then u - 2 ^ 32 else u)"

text \<open>\<open>a & b\<close>, \<open>a | b\<close>, \<open>a ^ b\<close>, \<open>~a\<close>, \<open>a << n\<close>, \<open>a >> n\<close> and \<open>a >>> n\<close>.\<close>

definition js_and :: "int \<Rightarrow> int \<Rightarrow> int" where
  "js_and a b = toInt32 a AND toInt32 b"

definition js_or :: "int \<Rightarrow> int \<Rightarrow> int" where
  "js_or a b = toInt32 a OR toInt32 b"

definition js_xor :: "int \<Rightarrow> int \<Rightarrow> int" where
  "js_xor a b = toInt32 a XOR toInt32 b"

definition js_not :: "int \<Rightarrow> int" where
  "js_not a = - toInt32 a - 1"

definition js_shl :: "int \<Rightarrow> nat \<Rightarrow> int" where
  "js_shl a n = toInt32 (toInt32 a * 2 ^ (n mod 32))"

definition js_shr :: "int \<Rightarrow> nat \<Rightarrow> int" where
  "js_shr a n = toInt32 a div 2 ^ (n mod 32)"

definition js_ushr :: "int \<Rightarrow> nat \<Rightarrow> int" where
  "js_ushr a n = toUint32 a div 2 ^ (n mod 32)"

text \<open>
  An element read from a \<open>Uint8Array\<close> is \<open>undefined\<close> when the index is outside the
  array; \<open>None\<close> stands for \<open>undefined\<close>. In a bitwise operator \<open>undefined\<close> converts to
  0, and every comparison of \<open>undefined\<close> with a number is false.
\<close>

definition byteAt :: "int list \<Rightarrow> int \<Rightarrow> int option" where
  "byteAt bs i = (if 0 \<le> i \<and> i < int (length bs) then Some (bs ! nat i) else None)"

definition js_num :: "int option \<Rightarrow> int" where
  "js_num t = (case t of None \<Rightarrow> 0 | Some v \<Rightarrow> v)"

definition js_ge :: "int option \<Rightarrow> int \<Rightarrow> bool" where
  "js_ge t n = (case t of None \<Rightarrow> False | Some v \<Rightarrow> v \<ge> n)"

definition js_lt :: "int option \<Rightarrow> int \<Rightarrow> bool" where
  "js_lt t n = (case t of None \<Rightarrow> False | Some v \<Rightarrow> v < n)"

text \<open>The two exceptions the codec throws (asserts.ts and the built-in \<open>TypeError\<close>).\<close>

datatype exn = AssertionError | TypeError

text \<open>
  \<open>String(n)\<close> and \<open>"" + n\<close> for an integer \<open>n\<close> below \<open>10 ^ 21\<close> in absolute value: the
  decimal digits, most significant first, after a minus sign when \<open>n\<close> is negative.
\<close>

definition digit_char :: "nat \<Rightarrow> char" where
  "digit_char d = ''0123456789'' ! d"

fun decimal :: "nat \<Rightarrow> string" where
  "decimal n = (if n < 10 then [digit_char n] else decimal (n div 10) @ [digit_char (n mod 10)])"

definition numberToString :: "int \<Rightarrow> string" where
  "numberToString x = (if x < 0 then CHR ''-'' # decimal (nat (- x)) else decimal (nat x))"

section \<open>lib.ts\<close>

definition TWO_TO_32 :: int where
  "TWO_TO_32 = 4294967296"

subsection \<open>Zigzag on split 64-bit values\<close>

text \<open>
  \<open>fromZigzag64\<close> and \<open>toZigzag64\<close> take the two 32-bit halves of a 64-bit value and a
  continuation \<open>convert\<close>, which they call on the transformed halves.
\<close>

definition fromZigzag64 :: "int \<Rightarrow> int \<Rightarrow> (int \<Rightarrow> int \<Rightarrow> 'a) \<Rightarrow> 'a" where
  "fromZigzag64 bitsLow bitsHigh convert =
     (let signFlipMask = - (js_and bitsLow 1);
          bitsLow' = js_xor (js_or (js_ushr bitsLow 1) (js_shl bitsHigh 31)) signFlipMask;
          bitsHigh' = js_xor (js_ushr bitsHigh 1) signFlipMask
      in convert bitsLow' bitsHigh')"

definition toZigzag64 :: "int \<Rightarrow> int \<Rightarrow> (int \<Rightarrow> int \<Rightarrow> 'a) \<Rightarrow> 'a" where
  "toZigzag64 bitsLow bitsHigh convert =
     (let signFlipMask = js_shr bitsHigh 31;
          bitsHigh' = js_xor (js_or (js_shl bitsHigh 1) (js_ushr bitsLow 31)) signFlipMask;
          bitsLow' = js_xor (js_shl bitsLow 1) signFlipMask
      in convert bitsLow' bitsHigh')"

text \<open>
  The 64-bit reading of a split pair, for stating the zigzag law on values: the pair of a
  64-bit two's complement value, and the unsigned and the signed value of a pair, which
  depend on the 32 bits of each half only.
\<close>

definition split64 :: "int \<Rightarrow> int \<times> int" where
  "split64 v = (v mod 2 ^ 32, (v div 2 ^ 32) mod 2 ^ 32)"

definition unsigned64 :: "int \<Rightarrow> int \<Rightarrow> int" where
  "unsigned64 bitsLow bitsHigh = toUint32 bitsHigh * 2 ^ 32 + toUint32 bitsLow"

definition signed64 :: "int \<Rightarrow> int \<Rightarrow> int" where
  "signed64 bitsLow bitsHigh =
     (let u = unsigned64 bitsLow bitsHigh in if u \<ge> 2 ^ 63 then u - 2 ^ 64 else u)"

definition encode_zigzag :: "int \<Rightarrow> int" where
  "encode_zigzag v = (case split64 v of (l, h) \<Rightarrow> toZigzag64 l h unsigned64)"

definition decode_zigzag :: "int \<Rightarrow> int" where
  "decode_zigzag u = (case split64 u of (l, h) \<Rightarrow> fromZigzag64 l h signed64)"

subsection \<open>Decimal formatting of an unsigned split value\<close>

text \<open>
  The inner function \<open>decimalFrom1e7\<close> of \<open>joinUnsignedDecimalString\<close>;
  \<open>"0000000".slice(n)\<close> drops the first \<open>n\<close> characters (all of them when \<open>n \<ge> 7\<close>).
\<close>

definition decimalFrom1e7 :: "int \<Rightarrow> int \<Rightarrow> string" where
  "decimalFrom1e7 digit1e7 needLeadingZeros =
     (let partial = (if digit1e7 \<noteq> 0 then numberToString digit1e7 else [])
      in if needLeadingZeros \<noteq> 0 then drop (length partial) ''0000000'' @ partial
         else partial)"

text \<open>
  On the slow path every intermediate value is an integer below \<open>2 ^ 53\<close>, so
  \<open>Math.floor(digitA / base)\<close> is the integer quotient and \<open>%\<close> the remainder.
\<close>

definition joinUnsignedDecimalString :: "int \<Rightarrow> int \<Rightarrow> string" where
  "joinUnsignedDecimalString bitsLow bitsHigh =
     (if bitsHigh \<le> 0x1fffff then numberToString (TWO_TO_32 * bitsHigh + bitsLow)
      else
        let low = js_and bitsLow 0xffffff;
            mid = js_and (js_ushr (js_or (js_ushr bitsLow 24) (js_shl bitsHigh 8)) 0) 0xffffff;
            high = js_and (js_shr bitsHigh 16) 0xffff;
            digitA = low + mid * 6777216 + high * 6710656;
            digitB = mid + high * 8147497;
            digitC = high * 2;
            base = 10000000;
            digitB1 = (if digitA \<ge> base then digitB + digitA div base else digitB);
            digitA1 = (if digitA \<ge> base then digitA mod base else digitA);
            digitC1 = (if digitB1 \<ge> base then digitC + digitB1 div base else digitC);
            digitB2 = (if digitB1 \<ge> base then digitB1 mod base else digitB1)
        in decimalFrom1e7 digitC1 0 @ decimalFrom1e7 digitB2 digitC1 @ decimalFrom1e7 digitA1 1)"

section \<open>encoder.ts: BinaryEncoder\<close>

record BinaryEncoder =
  buffer :: "int list"

subsection \<open>writeSplitVarint64\<close>

text \<open>
  The \<open>while\<close> loop of \<open>writeSplitVarint64\<close>, with the buffer it appends to. After one
  step both halves are unsigned 32-bit numbers and the 64-bit value has lost its low seven
  bits, which is why the loop ends.
\<close>

function writeSplitVarint64_loop :: "int list \<Rightarrow> int \<Rightarrow> int \<Rightarrow> int list" where
  "writeSplitVarint64_loop buf lowBits highBits =
     (if highBits > 0 \<or> lowBits > 127
      then writeSplitVarint64_loop (buf @ [js_or (js_and lowBits 0x7f) 0x80])
             (js_ushr (js_or (js_ushr lowBits 7) (js_shl highBits 25)) 0)
             (js_ushr highBits 7)
      else buf @ [lowBits])"
  by pat_completeness auto
termination
proof (relation "measures [\<lambda>(buf, l, h). if 0 \<le> h \<and> h < 2 ^ 32 then 0 else 1,
                           \<lambda>(buf, l, h). nat h,
                           \<lambda>(buf, l, h). if 0 \<le> l \<and> l < 2 ^ 32 then 0 else 1,
                           \<lambda>(buf, l, h). nat l]", goal_cases)
  case 1
  show ?case by simp
next
  case (2 buf lowBits highBits)
  define h' where "h' = js_ushr highBits 7"
  define l' where "l' = js_ushr (js_or (js_ushr lowBits 7) (js_shl highBits 25)) 0"
  have "0 \<le> toUint32 highBits \<and> toUint32 highBits < 4294967296"
    by (simp add: toUint32_def)
  then have h'_range: "0 \<le> h'" "h' < 2 ^ 32"
    unfolding h'_def js_ushr_def by (simp; arith)+
  have l'_range: "0 \<le> l'" "l' < 2 ^ 32"
    by (simp_all add: l'_def js_ushr_def toUint32_def)
  show ?case
  proof (cases "0 \<le> highBits \<and> highBits < 2 ^ 32")
    case False
    then show ?thesis using h'_range unfolding h'_def by auto
  next
    case hr: True
    then have h'_eq: "h' = highBits div 128"
      by (simp add: h'_def js_ushr_def toUint32_def)
    show ?thesis
    proof (cases "highBits > 0")
      case True
      then have "h' < highBits" unfolding h'_eq by simp
      then show ?thesis using hr h'_range True unfolding h'_def by auto
    next
      case False
      with hr have h0: "highBits = 0" by simp
      with 2 have big: "lowBits > 127" by simp
      have h'0: "h' = 0" using h0 h'_eq by simp
      show ?thesis
      proof (cases "lowBits < 2 ^ 32")
        case False
        then show ?thesis using l'_range h'0 h0 big unfolding h'_def l'_def by auto
      next
        case True
        have "js_shl 0 25 = 0" by (simp add: js_shl_def toInt32_def)
        moreover have "js_ushr lowBits 7 = lowBits div 128"
          using True big by (simp add: js_ushr_def toUint32_def)
        moreover have d: "0 \<le> lowBits div 128" "lowBits div 128 < 2 ^ 31"
          using True big by simp_all
        moreover have "toInt32 (lowBits div 128) = lowBits div 128"
          using d by (simp add: toInt32_def Let_def)
        moreover have "toInt32 0 = 0" by (simp add: toInt32_def)
        ultimately have "l' = lowBits div 128"
          using d by (simp add: l'_def js_or_def js_ushr_def toUint32_def h0)
        then have "l' < lowBits" using big by simp
        then show ?thesis using l'_range h'0 h0 big True unfolding h'_def l'_def by auto
      qed
    qed
  qed
qed

declare writeSplitVarint64_loop.simps [simp del]

text \<open>
  The four assertions come first (the first two hold of every integer); when one fails
  nothing has been written.
\<close>

definition writeSplitVarint64 :: "int \<Rightarrow> int \<Rightarrow> BinaryEncoder \<Rightarrow> exn + BinaryEncoder" where
  "writeSplitVarint64 lowBits highBits this =
     (if \<not> (lowBits \<ge> 0 \<and> lowBits < TWO_TO_32) then Inl AssertionError
      else if \<not> (highBits \<ge> 0 \<and> highBits < TWO_TO_32) then Inl AssertionError
      else Inr (this\<lparr>buffer := writeSplitVarint64_loop (buffer this) lowBits highBits\<rparr>))"

subsection \<open>writeString\<close>

text \<open>
  A JavaScript string is a sequence of UTF-16 code units, here a list of numbers in
  \<open>[0, 65536)\<close>; \<open>value.charCodeAt(i)\<close> is \<open>value ! i\<close> for \<open>i\<close> below the length, which
  the loop condition and the test \<open>i + 1 < value.length\<close> guarantee. The \<open>for\<close> loop
  over the index \<open>i\<close>:
\<close>

function writeString_loop :: "int list \<Rightarrow> nat \<Rightarrow> int list \<Rightarrow> int list" where
  "writeString_loop value i buf =
     (if i < length value then
        (let c = value ! i in
         if c < 128 then writeString_loop value (i + 1) (buf @ [c])
         else if c < 2048 then
           writeString_loop value (i + 1)
             (buf @ [js_or (js_shr c 6) 192, js_or (js_and c 63) 128])
         else if c < 65536 then
           (if c \<ge> 0xd800 \<and> c \<le> 0xdbff \<and> i + 1 < length value then
              (let second = value ! (i + 1) in
               if second \<ge> 0xdc00 \<and> second \<le> 0xdfff then
                 (let c = (c - 0xd800) * 0x400 + second - 0xdc00 + 0x10000 in
                  writeString_loop value (i + 1 + 1)
                    (buf @ [js_or (js_shr c 18) 240,
                            js_or (js_and (js_shr c 12) 63) 128,
                            js_or (js_and (js_shr c 6) 63) 128,
                            js_or (js_and c 63) 128]))
               else writeString_loop value (i + 1) buf)
            else
              writeString_loop value (i + 1)
                (buf @ [js_or (js_shr c 12) 224,
                        js_or (js_and (js_shr c 6) 63) 128,
                        js_or (js_and c 63) 128]))
         else writeString_loop value (i + 1) buf)
      else buf)"
  by pat_completeness auto
termination
  by (relation "measure (\<lambda>(value, i, buf). length value - i)") auto

declare writeString_loop.simps [simp del]

definition writeString :: "int list \<Rightarrow> BinaryEncoder \<Rightarrow> int \<times> BinaryEncoder" where
  "writeString value this =
     (let oldLength = int (length (buffer this));
          this' = this\<lparr>buffer := writeString_loop value 0 (buffer this)\<rparr>;
          len = int (length (buffer this')) - oldLength
      in (len, this'))"

section \<open>UInt64: 64-bit unsigned arithmetic on two 32-bit halves\<close>

record UInt64 =
  lo :: int
  hi :: int

definition UInt64_cmp :: "UInt64 \<Rightarrow> UInt64 \<Rightarrow> int" where
  "UInt64_cmp this other =
     (if hi this < hi other \<or> (hi this = hi other \<and> lo this < lo other) then - 1
      else if hi this = hi other \<and> lo this = lo other then 0
      else 1)"

definition UInt64_rightShift :: "UInt64 \<Rightarrow> UInt64" where
  "UInt64_rightShift this =
     (let h = js_ushr (hi this) 1;
          l = js_or (js_ushr (lo this) 1) (js_shl (js_and (hi this) 1) 31)
      in \<lparr>lo = js_ushr l 0, hi = js_ushr h 0\<rparr>)"

definition UInt64_leftShift :: "UInt64 \<Rightarrow> UInt64" where
  "UInt64_leftShift this =
     (let l = js_shl (lo this) 1;
          h = js_or (js_shl (hi this) 1) (js_ushr (lo this) 31)
      in \<lparr>lo = js_ushr l 0, hi = js_ushr h 0\<rparr>)"

definition UInt64_msb :: "UInt64 \<Rightarrow> bool" where
  "UInt64_msb this = (js_and (hi this) 0x80000000 \<noteq> 0)"

definition UInt64_zero :: "UInt64 \<Rightarrow> bool" where
  "UInt64_zero this = (lo this = 0 \<and> hi this = 0)"

definition UInt64_add :: "UInt64 \<Rightarrow> UInt64 \<Rightarrow> UInt64" where
  "UInt64_add this other =
     (let l = js_ushr (js_and (lo this + lo other) 0xffffffff) 0;
          h = js_ushr (js_and (hi this + hi other) 0xffffffff) 0
              + (if lo this + lo other \<ge> 0x100000000 then 1 else 0)
      in \<lparr>lo = js_ushr l 0, hi = js_ushr h 0\<rparr>)"

definition UInt64_sub :: "UInt64 \<Rightarrow> UInt64 \<Rightarrow> UInt64" where
  "UInt64_sub this other =
     (let l = js_ushr (js_and (lo this - lo other) 0xffffffff) 0;
          h = js_ushr (js_and (hi this - hi other) 0xffffffff) 0
              - (if lo this - lo other < 0 then 1 else 0)
      in \<lparr>lo = js_ushr l 0, hi = js_ushr h 0\<rparr>)"

text \<open>
  \<open>div\<close> has two \<open>while\<close> loops. The first shifts the divisor and the unit left until
  the top bit of the divisor is set; it does not end when the divisor has no bit among
  its low 64, so it is a partial function whose value \<open>None\<close> is "does not return". The
  second is the long division, one bit at a time.
\<close>

partial_function (option) UInt64_div_align :: "UInt64 \<Rightarrow> UInt64 \<Rightarrow> (UInt64 \<times> UInt64) option" where
  "UInt64_div_align divisor unit =
     (if \<not> UInt64_msb divisor
      then UInt64_div_align (UInt64_leftShift divisor) (UInt64_leftShift unit)
      else Some (divisor, unit))"

partial_function (option) UInt64_div_loop ::
  "UInt64 \<Rightarrow> UInt64 \<Rightarrow> UInt64 \<Rightarrow> UInt64 \<Rightarrow> (UInt64 \<times> UInt64) option" where
  "UInt64_div_loop quot remainder divisor unit =
     (if \<not> UInt64_zero unit
      then (if UInt64_cmp divisor remainder \<le> 0
            then UInt64_div_loop (UInt64_add quot unit) (UInt64_sub remainder divisor)
                   (UInt64_rightShift divisor) (UInt64_rightShift unit)
            else UInt64_div_loop quot remainder
                   (UInt64_rightShift divisor) (UInt64_rightShift unit))
      else Some (quot, remainder))"

declare UInt64_div_align.simps [code]
declare UInt64_div_loop.simps [code]

text \<open>The result is the array the method returns: empty, or quotient and remainder.\<close>

definition UInt64_div :: "int \<Rightarrow> UInt64 \<Rightarrow> UInt64 list option" where
  "UInt64_div divisor0 this =
     (if divisor0 = 0 then Some []
      else
        (case UInt64_div_align \<lparr>lo = divisor0, hi = 0\<rparr> \<lparr>lo = 1, hi = 0\<rparr> of
           None \<Rightarrow> None
         | Some (divisor, unit) \<Rightarrow>
             (case UInt64_div_loop \<lparr>lo = 0, hi = 0\<rparr> \<lparr>lo = lo this, hi = hi this\<rparr> divisor unit of
                None \<Rightarrow> None
              | Some (quot, remainder) \<Rightarrow> Some [quot, remainder])))"

text \<open>The 64-bit value of a \<open>UInt64\<close> whose halves are unsigned 32-bit numbers.\<close>

definition UInt64_value :: "UInt64 \<Rightarrow> int" where
  "UInt64_value x = hi x * 2 ^ 32 + lo x"

definition UInt64_valid :: "UInt64 \<Rightarrow> bool" where
  "UInt64_valid x = (0 \<le> lo x \<and> lo x < 2 ^ 32 \<and> 0 \<le> hi x \<and> hi x < 2 ^ 32)"

section \<open>BinaryDecoder\<close>

text \<open>
  The decoder's fields. \<open>bytes\<close> is \<open>None\<close> while the decoder holds no block
  (\<open>undefined\<close> in the source); a \<open>Uint8Array\<close> is the list of its elements.
  A method that mutates the decoder returns the new state. A method that can throw
  returns the exception or the value together with the state the decoder is left in,
  since the cursor is often moved before the exception is thrown.
\<close>

record BinaryDecoder =
  bytes :: "int list option"
  start :: int
  end_pos :: int
  cursor :: int
  error :: bool

type_synonym 'a reading = "(exn + 'a) \<times> BinaryDecoder"

text \<open>\<open>assert(this.cursor <= this.end); return v\<close>.\<close>

definition assert_cursor :: "'a \<Rightarrow> BinaryDecoder \<Rightarrow> 'a reading" where
  "assert_cursor v this =
     (if cursor this \<le> end_pos this then (Inr v, this) else (Inl AssertionError, this))"

text \<open>A statement sequence \<open>var v = r; ...\<close>: an exception of \<open>r\<close> ends the method.\<close>

definition and_then :: "'a reading \<Rightarrow> ('a \<Rightarrow> BinaryDecoder \<Rightarrow> 'b reading) \<Rightarrow> 'b reading" where
  "and_then r f = (case r of (Inl e, this) \<Rightarrow> (Inl e, this) | (Inr v, this) \<Rightarrow> f v this)"

subsection \<open>Block, cursor and error state\<close>

definition clear :: "BinaryDecoder \<Rightarrow> BinaryDecoder" where
  "clear this = this\<lparr>bytes := None, start := 0, end_pos := 0, cursor := 0, error := False\<rparr>"

text \<open>
  \<open>setBlock(data, start?, length?)\<close>; the data is taken as already coerced to a
  \<open>Uint8Array\<close>. \<open>start || 0\<close> is 0 for a missing start.
\<close>

definition setBlock :: "int list \<Rightarrow> int option \<Rightarrow> int option \<Rightarrow> BinaryDecoder \<Rightarrow> BinaryDecoder" where
  "setBlock data start0 length0 this =
     (let s = (case start0 of None \<Rightarrow> 0 | Some v \<Rightarrow> v);
          e = (case length0 of Some l \<Rightarrow> s + l | None \<Rightarrow> int (length data))
      in this\<lparr>bytes := Some data, start := s, end_pos := e, cursor := s\<rparr>)"

definition setEnd :: "int \<Rightarrow> BinaryDecoder \<Rightarrow> BinaryDecoder" where
  "setEnd e this = this\<lparr>end_pos := e\<rparr>"

definition reset :: "BinaryDecoder \<Rightarrow> BinaryDecoder" where
  "reset this = this\<lparr>cursor := start this\<rparr>"

definition setCursor :: "int \<Rightarrow> BinaryDecoder \<Rightarrow> BinaryDecoder" where
  "setCursor c this = this\<lparr>cursor := c\<rparr>"

definition advance :: "int \<Rightarrow> BinaryDecoder \<Rightarrow> unit reading" where
  "advance count this = assert_cursor () (this\<lparr>cursor := cursor this + count\<rparr>)"

definition atEnd :: "BinaryDecoder \<Rightarrow> bool" where
  "atEnd this = (cursor this = end_pos this)"

definition pastEnd :: "BinaryDecoder \<Rightarrow> bool" where
  "pastEnd this = (cursor this > end_pos this)"

definition getError :: "BinaryDecoder \<Rightarrow> bool" where
  "getError this = (error this \<or> cursor this < 0 \<or> cursor this > end_pos this)"

subsection \<open>The instance cache\<close>

text \<open>
  The static \<open>instanceCache\<close> is an array used as a stack: \<open>pop\<close> takes its last
  element, \<open>push\<close> appends. \<open>alloc\<close> returns the decoder and the cache it leaves;
  \<open>free\<close> returns the cleared decoder and the cache.
\<close>

definition new_BinaryDecoder :: "int list option \<Rightarrow> int option \<Rightarrow> int option \<Rightarrow> BinaryDecoder" where
  "new_BinaryDecoder bytes0 start0 length0 =
     (let this = \<lparr>bytes = None, start = 0, end_pos = 0, cursor = 0, error = False\<rparr>
      in case bytes0 of None \<Rightarrow> this | Some data \<Rightarrow> setBlock data start0 length0 this)"

definition alloc ::
  "int list option \<Rightarrow> int option \<Rightarrow> int option \<Rightarrow> BinaryDecoder list \<Rightarrow> BinaryDecoder \<times> BinaryDecoder list" where
  "alloc bytes0 start0 length0 instanceCache =
     (if length instanceCache \<noteq> 0 then
        (let newDecoder = last instanceCache;
             instanceCache' = butlast instanceCache
         in case bytes0 of
              None \<Rightarrow> (newDecoder, instanceCache')
            | Some data \<Rightarrow> (setBlock data start0 length0 newDecoder, instanceCache'))
      else (new_BinaryDecoder bytes0 start0 length0, instanceCache))"

definition free :: "BinaryDecoder \<Rightarrow> BinaryDecoder list \<Rightarrow> BinaryDecoder \<times> BinaryDecoder list" where
  "free this instanceCache =
     (let this' = clear this
      in if length instanceCache < 100 then (this', instanceCache @ [this'])
         else (this', instanceCache))"

text \<open>\<open>BinaryDecoder.alloc().free()\<close>, as an operation on the cache.\<close>

definition alloc_free :: "BinaryDecoder list \<Rightarrow> BinaryDecoder list" where
  "alloc_free instanceCache =
     (case alloc None None None instanceCache of (d, c) \<Rightarrow> snd (free d c))"

text \<open>
  \<open>n\<close> decoders allocated one after the other, then all of them freed (the second half
  of the test \<open>testInstanceCache\<close>).
\<close>

fun alloc_many :: "nat \<Rightarrow> BinaryDecoder list \<Rightarrow> BinaryDecoder list \<times> BinaryDecoder list" where
  "alloc_many 0 instanceCache = ([], instanceCache)"
| "alloc_many (Suc n) instanceCache =
     (case alloc None None None instanceCache of
        (d, c) \<Rightarrow> (case alloc_many n c of (ds, c') \<Rightarrow> (d # ds, c')))"

fun free_all :: "BinaryDecoder list \<Rightarrow> BinaryDecoder list \<Rightarrow> BinaryDecoder list" where
  "free_all [] instanceCache = instanceCache"
| "free_all (d # ds) instanceCache = free_all ds (snd (free d instanceCache))"

subsection \<open>Conversions of lib.ts used by the reads\<close>

definition joinSignedDecimalString :: "int \<Rightarrow> int \<Rightarrow> string" where
  "joinSignedDecimalString bitsLow bitsHigh =
     (let negative = js_and bitsHigh 0x80000000;
          bitsLow' = (if negative \<noteq> 0 then js_ushr (js_not bitsLow + 1) 0 else bitsLow);
          carry = (if bitsLow' = 0 then 1 else 0);
          bitsHigh' = (if negative \<noteq> 0 then js_ushr (js_not bitsHigh + carry) 0 else bitsHigh);
          result = joinUnsignedDecimalString bitsLow' bitsHigh'
      in if negative \<noteq> 0 then CHR ''-'' # result else result)"

text \<open>A hash string is the list of its eight character codes.\<close>

definition joinHash64 :: "int \<Rightarrow> int \<Rightarrow> int list" where
  "joinHash64 bitsLow bitsHigh =
     [js_and (js_ushr bitsLow 0) 0xff, js_and (js_ushr bitsLow 8) 0xff,
      js_and (js_ushr bitsLow 16) 0xff, js_and (js_ushr bitsLow 24) 0xff,
      js_and (js_ushr bitsHigh 0) 0xff, js_and (js_ushr bitsHigh 8) 0xff,
      js_and (js_ushr bitsHigh 16) 0xff, js_and (js_ushr bitsHigh 24) 0xff]"

text \<open>\<open>String.fromCharCode\<close> keeps the low 16 bits of each code (0 for \<open>undefined\<close>).\<close>

definition fromCharCode :: "int list \<Rightarrow> int list" where
  "fromCharCode codes = map (\<lambda>c. c mod 65536) codes"

subsection \<open>Varint reads\<close>

text \<open>
  The first loop of \<open>readSplitVarint64\<close> (up to four bytes into the low word) and the
  third (up to five bytes into the high word); each returns the last byte read, the cursor
  and the word.
\<close>

function readSplitVarint64_low ::
  "int list \<Rightarrow> nat \<Rightarrow> int option \<Rightarrow> int \<Rightarrow> int \<Rightarrow> int option \<times> int \<times> int" where
  "readSplitVarint64_low bs i temp cur lowBits =
     (if i < 4 \<and> js_ge temp 128 then
        (let temp' = byteAt bs cur
         in readSplitVarint64_low bs (i + 1) temp' (cur + 1)
              (js_or lowBits (js_shl (js_and (js_num temp') 0x7f) (i * 7))))
      else (temp, cur, lowBits))"
  by pat_completeness auto
termination
  by (relation "measure (\<lambda>(bs, i, temp, cur, lowBits). 4 - i)") auto

declare readSplitVarint64_low.simps [simp del]

function readSplitVarint64_high ::
  "int list \<Rightarrow> nat \<Rightarrow> int option \<Rightarrow> int \<Rightarrow> int \<Rightarrow> int option \<times> int \<times> int" where
  "readSplitVarint64_high bs i temp cur highBits =
     (if i < 5 \<and> js_ge temp 128 then
        (let temp' = byteAt bs cur
         in readSplitVarint64_high bs (i + 1) temp' (cur + 1)
              (js_or highBits (js_shl (js_and (js_num temp') 0x7f) (i * 7 + 3))))
      else (temp, cur, highBits))"
  by pat_completeness auto
termination
  by (relation "measure (\<lambda>(bs, i, temp, cur, highBits). 5 - i)") auto

declare readSplitVarint64_high.simps [simp del]

text \<open>
  The assignment \<open>this.error = true\<close> after the \<open>throw\<close> is never reached, so the
  flag keeps its value when the varint is invalid.
\<close>

definition readSplitVarint64 :: "(int \<Rightarrow> int \<Rightarrow> 'a) \<Rightarrow> BinaryDecoder \<Rightarrow> 'a reading" where
  "readSplitVarint64 convert this =
     (case bytes this of
        None \<Rightarrow> (Inl TypeError, this)
      | Some bs \<Rightarrow>
          (case readSplitVarint64_low bs 0 (Some 128) (cursor this) 0 of
             (temp1, cur1, lowBits1) \<Rightarrow>
               (let fifth = byteAt bs cur1;
                    temp2 = (if js_ge temp1 128 then fifth else temp1);
                    cur2 = (if js_ge temp1 128 then cur1 + 1 else cur1);
                    lowBits2 = (if js_ge temp1 128
                                then js_or lowBits1 (js_shl (js_and (js_num fifth) 0x7f) 28)
                                else lowBits1);
                    highBits2 = (if js_ge temp1 128
                                 then js_or 0 (js_shr (js_and (js_num fifth) 0x7f) 4)
                                 else 0)
                in case (if js_ge temp2 128 then readSplitVarint64_high bs 0 temp2 cur2 highBits2
                         else (temp2, cur2, highBits2)) of
                     (temp3, cur3, highBits3) \<Rightarrow>
                       if js_lt temp3 128
                       then (Inr (convert (js_ushr lowBits2 0) (js_ushr highBits3 0)),
                             this\<lparr>cursor := cur3\<rparr>)
                       else (Inl AssertionError, this\<lparr>cursor := cur3\<rparr>))))"

definition readSplitZigzagVarint64 :: "(int \<Rightarrow> int \<Rightarrow> 'a) \<Rightarrow> BinaryDecoder \<Rightarrow> 'a reading" where
  "readSplitZigzagVarint64 convert this =
     readSplitVarint64 (\<lambda>low high. fromZigzag64 low high convert) this"

text \<open>
  The loop of \<open>readSplitFixed64\<close> runs \<open>i\<close> from \<open>cursor + 7\<close> down to \<open>cursor\<close>; the
  counter here is the number of iterations left, so \<open>i = cursor + k\<close>.
\<close>

fun readSplitFixed64_loop :: "int list \<Rightarrow> int \<Rightarrow> nat \<Rightarrow> int \<Rightarrow> int \<Rightarrow> int \<times> int" where
  "readSplitFixed64_loop bs cur 0 lowBits highBits = (lowBits, highBits)"
| "readSplitFixed64_loop bs cur (Suc k) lowBits highBits =
     readSplitFixed64_loop bs cur k
       (js_or (js_shl lowBits 8) (js_num (byteAt bs (cur + int k))))
       (js_or (js_shl highBits 8) (js_num (byteAt bs (cur + int k + 4))))"

definition readSplitFixed64 :: "(int \<Rightarrow> int \<Rightarrow> 'a) \<Rightarrow> BinaryDecoder \<Rightarrow> 'a reading" where
  "readSplitFixed64 convert this =
     (case bytes this of
        None \<Rightarrow> (Inl TypeError, this)
      | Some bs \<Rightarrow>
          (case readSplitFixed64_loop bs (cursor this) 8 0 0 of
             (lowBits, highBits) \<Rightarrow>
               (Inr (convert lowBits highBits), this\<lparr>cursor := cursor this + 8\<rparr>)))"

text \<open>
  \<open>readUnsignedVarint32\<close> is unrolled in the source. After five bytes with the high bit
  set, the chain of \<open>&&\<close> reads on while the bytes have the high bit set and stops at the
  first that has not; \<open>assert(false)\<close> is reached when all five have it.
\<close>

definition readUnsignedVarint32 :: "BinaryDecoder \<Rightarrow> int reading" where
  "readUnsignedVarint32 this =
     (case bytes this of
        None \<Rightarrow> (Inl TypeError, this)
      | Some bs \<Rightarrow>
          (let c = cursor this;
               temp0 = byteAt bs (c + 0);
               x0 = js_and (js_num temp0) 0x7f
           in if js_lt temp0 128 then assert_cursor x0 (this\<lparr>cursor := c + 1\<rparr>)
              else
          (let temp1 = byteAt bs (c + 1);
               x1 = js_or x0 (js_shl (js_and (js_num temp1) 0x7f) 7)
           in if js_lt temp1 128 then assert_cursor x1 (this\<lparr>cursor := c + 2\<rparr>)
              else
          (let temp2 = byteAt bs (c + 2);
               x2 = js_or x1 (js_shl (js_and (js_num temp2) 0x7f) 14)
           in if js_lt temp2 128 then assert_cursor x2 (this\<lparr>cursor := c + 3\<rparr>)
              else
          (let temp3 = byteAt bs (c + 3);
               x3 = js_or x2 (js_shl (js_and (js_num temp3) 0x7f) 21)
           in if js_lt temp3 128 then assert_cursor x3 (this\<lparr>cursor := c + 4\<rparr>)
              else
          (let temp4 = byteAt bs (c + 4);
               x4 = js_or x3 (js_shl (js_and (js_num temp4) 0x0f) 28)
           in if js_lt temp4 128 then assert_cursor (js_ushr x4 0) (this\<lparr>cursor := c + 5\<rparr>)
              else
          (let c5 = c + 5
           in if js_ge (byteAt bs c5) 128 then
                if js_ge (byteAt bs (c5 + 1)) 128 then
                  if js_ge (byteAt bs (c5 + 2)) 128 then
                    if js_ge (byteAt bs (c5 + 3)) 128 then
                      if js_ge (byteAt bs (c5 + 4)) 128
                      then (Inl AssertionError, this\<lparr>cursor := c5 + 5\<rparr>)
                      else assert_cursor x4 (this\<lparr>cursor := c5 + 5\<rparr>)
                    else assert_cursor x4 (this\<lparr>cursor := c5 + 4\<rparr>)
                  else assert_cursor x4 (this\<lparr>cursor := c5 + 3\<rparr>)
                else assert_cursor x4 (this\<lparr>cursor := c5 + 2\<rparr>)
              else assert_cursor x4 (this\<lparr>cursor := c5 + 1\<rparr>))))))))"

definition readSignedVarint32 :: "BinaryDecoder \<Rightarrow> int reading" where
  "readSignedVarint32 this = readUnsignedVarint32 this"

definition readUnsignedVarint32String :: "BinaryDecoder \<Rightarrow> string reading" where
  "readUnsignedVarint32String this =
     and_then (readUnsignedVarint32 this) (\<lambda>v this'. (Inr (numberToString v), this'))"

definition readSignedVarint32String :: "BinaryDecoder \<Rightarrow> string reading" where
  "readSignedVarint32String this =
     and_then (readSignedVarint32 this) (\<lambda>v this'. (Inr (numberToString v), this'))"

definition readZigzagVarint32 :: "BinaryDecoder \<Rightarrow> int reading" where
  "readZigzagVarint32 this =
     and_then (readUnsignedVarint32 this)
       (\<lambda>result this'. (Inr (js_xor (js_ushr result 1) (- (js_and result 1))), this'))"

text \<open>
  The 64-bit reads that return a JavaScript number go through \<open>lib.joinUint64\<close>,
  \<open>lib.joinInt64\<close> or \<open>lib.joinZigzag64\<close>, and the float reads through
  \<open>lib.joinFloat32\<close> or \<open>lib.joinFloat64\<close>. These compute in floating point and
  are not modelled: each such read takes the conversion as its first argument.
\<close>

definition readUnsignedVarint64 :: "(int \<Rightarrow> int \<Rightarrow> 'n) \<Rightarrow> BinaryDecoder \<Rightarrow> 'n reading" where
  "readUnsignedVarint64 joinUint64 this = readSplitVarint64 joinUint64 this"

definition readUnsignedVarint64String :: "BinaryDecoder \<Rightarrow> string reading" where
  "readUnsignedVarint64String this = readSplitVarint64 joinUnsignedDecimalString this"

definition readSignedVarint64 :: "(int \<Rightarrow> int \<Rightarrow> 'n) \<Rightarrow> BinaryDecoder \<Rightarrow> 'n reading" where
  "readSignedVarint64 joinInt64 this = readSplitVarint64 joinInt64 this"

definition readSignedVarint64String :: "BinaryDecoder \<Rightarrow> string reading" where
  "readSignedVarint64String this = readSplitVarint64 joinSignedDecimalString this"

definition readZigzagVarint64 :: "(int \<Rightarrow> int \<Rightarrow> 'n) \<Rightarrow> BinaryDecoder \<Rightarrow> 'n reading" where
  "readZigzagVarint64 joinZigzag64 this = readSplitVarint64 joinZigzag64 this"

definition readZigzagVarintHash64 :: "BinaryDecoder \<Rightarrow> int list reading" where
  "readZigzagVarintHash64 this = readSplitZigzagVarint64 joinHash64 this"

definition readZigzagVarint64String :: "BinaryDecoder \<Rightarrow> string reading" where
  "readZigzagVarint64String this = readSplitZigzagVarint64 joinSignedDecimalString this"

definition readVarintHash64 :: "BinaryDecoder \<Rightarrow> int list reading" where
  "readVarintHash64 this = readSplitVarint64 joinHash64 this"

definition readEnum :: "BinaryDecoder \<Rightarrow> int reading" where
  "readEnum this = readSignedVarint32 this"

subsection \<open>Fixed-width reads\<close>

text \<open>\<open>readUint8\<close> returns the element itself, which is \<open>undefined\<close> outside the array.\<close>

definition readUint8 :: "BinaryDecoder \<Rightarrow> int option reading" where
  "readUint8 this =
     (case bytes this of
        None \<Rightarrow> (Inl TypeError, this)
      | Some bs \<Rightarrow>
          (let a = byteAt bs (cursor this + 0)
           in assert_cursor a (this\<lparr>cursor := cursor this + 1\<rparr>)))"

definition readUint16 :: "BinaryDecoder \<Rightarrow> int reading" where
  "readUint16 this =
     (case bytes this of
        None \<Rightarrow> (Inl TypeError, this)
      | Some bs \<Rightarrow>
          (let a = js_num (byteAt bs (cursor this + 0));
               b = js_num (byteAt bs (cursor this + 1))
           in assert_cursor (js_or (js_shl a 0) (js_shl b 8))
                (this\<lparr>cursor := cursor this + 2\<rparr>)))"

definition readUint32 :: "BinaryDecoder \<Rightarrow> int reading" where
  "readUint32 this =
     (case bytes this of
        None \<Rightarrow> (Inl TypeError, this)
      | Some bs \<Rightarrow>
          (let a = js_num (byteAt bs (cursor this + 0));
               b = js_num (byteAt bs (cursor this + 1));
               c = js_num (byteAt bs (cursor this + 2));
               d = js_num (byteAt bs (cursor this + 3))
           in assert_cursor
                (js_ushr (js_or (js_or (js_or (js_shl a 0) (js_shl b 8)) (js_shl c 16)) (js_shl d 24)) 0)
                (this\<lparr>cursor := cursor this + 4\<rparr>)))"

definition readUint64 :: "(int \<Rightarrow> int \<Rightarrow> 'n) \<Rightarrow> BinaryDecoder \<Rightarrow> 'n reading" where
  "readUint64 joinUint64 this =
     and_then (readUint32 this) (\<lambda>bitsLow this'.
       and_then (readUint32 this') (\<lambda>bitsHigh this''.
         (Inr (joinUint64 bitsLow bitsHigh), this'')))"

definition readUint64String :: "BinaryDecoder \<Rightarrow> string reading" where
  "readUint64String this =
     and_then (readUint32 this) (\<lambda>bitsLow this'.
       and_then (readUint32 this') (\<lambda>bitsHigh this''.
         (Inr (joinUnsignedDecimalString bitsLow bitsHigh), this'')))"

definition readInt8 :: "BinaryDecoder \<Rightarrow> int reading" where
  "readInt8 this =
     (case bytes this of
        None \<Rightarrow> (Inl TypeError, this)
      | Some bs \<Rightarrow>
          (let a = js_num (byteAt bs (cursor this + 0))
           in assert_cursor (js_shr (js_shl a 24) 24) (this\<lparr>cursor := cursor this + 1\<rparr>)))"

definition readInt16 :: "BinaryDecoder \<Rightarrow> int reading" where
  "readInt16 this =
     (case bytes this of
        None \<Rightarrow> (Inl TypeError, this)
      | Some bs \<Rightarrow>
          (let a = js_num (byteAt bs (cursor this + 0));
               b = js_num (byteAt bs (cursor this + 1))
           in assert_cursor (js_shr (js_shl (js_or (js_shl a 0) (js_shl b 8)) 16) 16)
                (this\<lparr>cursor := cursor this + 2\<rparr>)))"

definition readInt32 :: "BinaryDecoder \<Rightarrow> int reading" where
  "readInt32 this =
     (case bytes this of
        None \<Rightarrow> (Inl TypeError, this)
      | Some bs \<Rightarrow>
          (let a = js_num (byteAt bs (cursor this + 0));
               b = js_num (byteAt bs (cursor this + 1));
               c = js_num (byteAt bs (cursor this + 2));
               d = js_num (byteAt bs (cursor this + 3))
           in assert_cursor
                (js_or (js_or (js_or (js_shl a 0) (js_shl b 8)) (js_shl c 16)) (js_shl d 24))
                (this\<lparr>cursor := cursor this + 4\<rparr>)))"

definition readInt64 :: "(int \<Rightarrow> int \<Rightarrow> 'n) \<Rightarrow> BinaryDecoder \<Rightarrow> 'n reading" where
  "readInt64 joinInt64 this =
     and_then (readUint32 this) (\<lambda>bitsLow this'.
       and_then (readUint32 this') (\<lambda>bitsHigh this''.
         (Inr (joinInt64 bitsLow bitsHigh), this'')))"

definition readInt64String :: "BinaryDecoder \<Rightarrow> string reading" where
  "readInt64String this =
     and_then (readUint32 this) (\<lambda>bitsLow this'.
       and_then (readUint32 this') (\<lambda>bitsHigh this''.
         (Inr (joinSignedDecimalString bitsLow bitsHigh), this'')))"

definition readFloat :: "(int \<Rightarrow> int \<Rightarrow> 'n) \<Rightarrow> BinaryDecoder \<Rightarrow> 'n reading" where
  "readFloat joinFloat32 this =
     and_then (readUint32 this) (\<lambda>bitsLow this'. (Inr (joinFloat32 bitsLow 0), this'))"

definition readDouble :: "(int \<Rightarrow> int \<Rightarrow> 'n) \<Rightarrow> BinaryDecoder \<Rightarrow> 'n reading" where
  "readDouble joinFloat64 this =
     and_then (readUint32 this) (\<lambda>bitsLow this'.
       and_then (readUint32 this') (\<lambda>bitsHigh this''.
         (Inr (joinFloat64 bitsLow bitsHigh), this'')))"

text \<open>\<open>readBool\<close> does not throw: without bytes it returns \<open>false\<close>.\<close>

definition readBool :: "BinaryDecoder \<Rightarrow> bool reading" where
  "readBool this =
     (case bytes this of
        None \<Rightarrow> (Inr False, this)
      | Some bs \<Rightarrow>
          (Inr (js_num (byteAt bs (cursor this)) \<noteq> 0), this\<lparr>cursor := cursor this + 1\<rparr>))"

definition readFixedHash64 :: "BinaryDecoder \<Rightarrow> int list reading" where
  "readFixedHash64 this =
     (case bytes this of
        None \<Rightarrow> (Inl TypeError, this)
      | Some bs \<Rightarrow>
          (let cur = cursor this;
               a = js_num (byteAt bs (cur + 0));
               b = js_num (byteAt bs (cur + 1));
               c = js_num (byteAt bs (cur + 2));
               d = js_num (byteAt bs (cur + 3));
               e = js_num (byteAt bs (cur + 4));
               f = js_num (byteAt bs (cur + 5));
               g = js_num (byteAt bs (cur + 6));
               h = js_num (byteAt bs (cur + 7))
           in (Inr (fromCharCode [a, b, c, d, e, f, g, h]), this\<lparr>cursor := cur + 8\<rparr>)))"

subsection \<open>Strings and byte blocks\<close>

text \<open>
  The flush at the end of an iteration of the loop of \<open>readString\<close>: the code units
  collected so far move to the result string once there are 8192 of them.
\<close>

definition readString_flush :: "int list \<Rightarrow> int list \<Rightarrow> int list \<times> int list" where
  "readString_flush codeUnits result =
     (if length codeUnits \<ge> 8192 then ([], result @ fromCharCode codeUnits)
      else (codeUnits, result))"

text \<open>
  The \<open>while\<close> loop of \<open>readString\<close> over the local cursor, with the code units not yet
  flushed and the result so far. A continuation byte met where a character should start
  is skipped with \<open>continue\<close>, which also skips the flush. A byte of 248 or more, or
  \<open>undefined\<close>, adds nothing.
\<close>

function readString_loop ::
  "int list \<Rightarrow> int \<Rightarrow> int \<Rightarrow> int list \<Rightarrow> int list \<Rightarrow> int \<times> int list \<times> int list" where
  "readString_loop bs cur endp codeUnits result =
     (if cur < endp then
        (let c = byteAt bs cur;
             c2 = js_num (byteAt bs (cur + 1));
             c3 = js_num (byteAt bs (cur + 2));
             c4 = js_num (byteAt bs (cur + 3));
             codepoint = js_or (js_or (js_or (js_shl (js_and (js_num c) 7) 18)
                                             (js_shl (js_and c2 63) 12))
                                      (js_shl (js_and c3 63) 6))
                               (js_and c4 63) - 0x10000;
             low = js_and codepoint 1023 + 0xdc00;
             high = js_and (js_shr codepoint 10) 1023 + 0xd800
         in if js_lt c 128 then
              readString_loop bs (cur + 1) endp
                (fst (readString_flush (codeUnits @ [js_num c]) result))
                (snd (readString_flush (codeUnits @ [js_num c]) result))
            else if js_lt c 192 then
              readString_loop bs (cur + 1) endp codeUnits result
            else if js_lt c 224 then
              (let units = codeUnits @ [js_or (js_shl (js_and (js_num c) 31) 6) (js_and c2 63)]
               in readString_loop bs (cur + 2) endp
                    (fst (readString_flush units result)) (snd (readString_flush units result)))
            else if js_lt c 240 then
              (let units = codeUnits @ [js_or (js_or (js_shl (js_and (js_num c) 15) 12)
                                                     (js_shl (js_and c2 63) 6))
                                              (js_and c3 63)]
               in readString_loop bs (cur + 3) endp
                    (fst (readString_flush units result)) (snd (readString_flush units result)))
            else if js_lt c 248 then
              (let units = codeUnits @ [high, low]
               in readString_loop bs (cur + 4) endp
                    (fst (readString_flush units result)) (snd (readString_flush units result)))
            else
              readString_loop bs (cur + 1) endp
                (fst (readString_flush codeUnits result)) (snd (readString_flush codeUnits result)))
      else (cur, codeUnits, result))"
  by pat_completeness auto
termination
  by (relation "measure (\<lambda>(bs, cur, endp, codeUnits, result). nat (endp - cur))") auto

declare readString_loop.simps [simp del]

definition readString :: "int \<Rightarrow> BinaryDecoder \<Rightarrow> int list reading" where
  "readString len this =
     (case bytes this of
        None \<Rightarrow> (Inl TypeError, this)
      | Some bs \<Rightarrow>
          (case readString_loop bs (cursor this) (cursor this + len) [] [] of
             (cur, codeUnits, result) \<Rightarrow>
               (Inr (result @ fromCharCode codeUnits), this\<lparr>cursor := cur\<rparr>)))"

definition readStringWithLength :: "BinaryDecoder \<Rightarrow> int list reading" where
  "readStringWithLength this =
     and_then (readUnsignedVarint32 this) (\<lambda>len this'. readString len this')"

text \<open>
  \<open>Uint8Array.prototype.subarray(begin, end)\<close>: a negative index counts from the end
  of the array, and both indices are clamped to the array.
\<close>

definition subarray :: "int list \<Rightarrow> int \<Rightarrow> int \<Rightarrow> int list" where
  "subarray bs b e =
     (let len = int (length bs);
          bi = (if b < 0 then max (len + b) 0 else min b len);
          ei = (if e < 0 then max (len + e) 0 else min e len)
      in take (nat (ei - bi)) (drop (nat bi) bs))"

definition readBytes :: "int \<Rightarrow> BinaryDecoder \<Rightarrow> int list reading" where
  "readBytes len this =
     (case bytes this of
        None \<Rightarrow> (Inl TypeError, this)
      | Some bs \<Rightarrow>
          if len < 0 \<or> cursor this + len > int (length bs)
          then (Inl TypeError, this\<lparr>error := True\<rparr>)
          else
            (let result = subarray bs (cursor this) (cursor this + len)
             in assert_cursor result (this\<lparr>cursor := cursor this + len\<rparr>)))"

section \<open>Properties of the 32-bit operators\<close>

lemma toUint32_take_bit: "toUint32 x = take_bit 32 x"
  by (simp add: toUint32_def take_bit_eq_mod)

lemma toInt32_signed_take_bit: "toInt32 x = signed_take_bit 31 x"
proof -
  define u where "u = x mod 4294967296"
  have u: "0 \<le> u" "u < 4294967296" by (simp_all add: u_def)
  have "signed_take_bit 31 x = (x + 2147483648) mod 4294967296 - 2147483648"
    by (simp add: signed_take_bit_eq_take_bit_shift take_bit_eq_mod)
  also have "(x + 2147483648) mod 4294967296 = (u + 2147483648) mod 4294967296"
    unfolding u_def by (simp add: mod_add_left_eq)
  also have "\<dots> = (if u \<ge> 2147483648 then u - 2147483648 else u + 2147483648)"
  proof (cases "u \<ge> 2147483648")
    case True
    have "u + 2147483648 = u - 2147483648 + 4294967296"
      by arith
    then have "(u + 2147483648) mod 4294967296 = (u - 2147483648 + 4294967296) mod 4294967296"
      by (rule arg_cong)
    also have "\<dots> = (u - 2147483648) mod 4294967296"
      by (simp only: mod_add_self2)
    also have "\<dots> = u - 2147483648"
      using True u by (intro mod_pos_pos_trivial) simp_all
    finally show ?thesis using True by simp
  next
    case False
    then have "(u + 2147483648) mod 4294967296 = u + 2147483648"
      using u by (intro mod_pos_pos_trivial) simp_all
    then show ?thesis using False by simp
  qed
  finally show ?thesis
    by (simp add: toInt32_def Let_def u_def)
qed

lemma toUint32_range: "0 \<le> toUint32 x" "toUint32 x < 4294967296"
  by (simp_all add: toUint32_def)

lemma toUint32_id: "0 \<le> x \<Longrightarrow> x < 4294967296 \<Longrightarrow> toUint32 x = x"
  by (simp add: toUint32_def)

lemma toInt32_id: "- 2147483648 \<le> x \<Longrightarrow> x < 2147483648 \<Longrightarrow> toInt32 x = x"
proof -
  assume a: "- 2147483648 \<le> x" "x < 2147483648"
  show ?thesis
  proof (cases "0 \<le> x")
    case True
    then have "x mod 4294967296 = x" using a by simp
    then show ?thesis using a by (simp add: toInt32_def Let_def)
  next
    case False
    have "x mod 4294967296 = (x + 4294967296) mod 4294967296" by simp
    also have "\<dots> = x + 4294967296"
      using a False by (intro mod_pos_pos_trivial) simp_all
    finally show ?thesis using a False by (simp add: toInt32_def Let_def)
  qed
qed

lemma toInt32_range: "- 2147483648 \<le> toInt32 x" "toInt32 x < 2147483648"
proof -
  have "0 \<le> x mod 4294967296" "x mod 4294967296 < 4294967296" by simp_all
  then show "- 2147483648 \<le> toInt32 x" "toInt32 x < 2147483648"
    by (auto simp add: toInt32_def Let_def)
qed

lemma toUint32_toInt32 [simp]: "toUint32 (toInt32 x) = toUint32 x"
proof -
  have "(x mod 4294967296 - 4294967296) mod 4294967296 = x mod 4294967296"
    by (simp only: minus_mod_self2 mod_mod_trivial)
  then show ?thesis
    by (simp add: toUint32_def toInt32_def Let_def)
qed

lemma toInt32_toUint32 [simp]: "toInt32 (toUint32 x) = toInt32 x"
  by (simp add: toUint32_def toInt32_def Let_def)

text \<open>The bits of the result of each operator, in terms of the bits of the operands.\<close>

lemma bit_toInt32: "bit (toInt32 a) k = bit a (min 31 k)"
  by (simp add: toInt32_signed_take_bit bit_simps)

lemma bit_toUint32: "bit (toUint32 a) k = (k < 32 \<and> bit a k)"
  by (simp add: toUint32_take_bit bit_simps)

lemma bit_js_and: "bit (js_and a b) k = (bit a (min 31 k) \<and> bit b (min 31 k))"
  by (simp add: js_and_def bit_toInt32 bit_simps)

lemma bit_js_or: "bit (js_or a b) k = (bit a (min 31 k) \<or> bit b (min 31 k))"
  by (simp add: js_or_def bit_toInt32 bit_simps)

lemma bit_js_xor: "bit (js_xor a b) k = (bit a (min 31 k) \<noteq> bit b (min 31 k))"
  by (simp add: js_xor_def bit_toInt32 bit_simps)

lemma bit_js_not: "bit (js_not a) k = (\<not> bit a (min 31 k))"
proof -
  have "js_not a = NOT (toInt32 a)" by (simp add: js_not_def not_int_def)
  then show ?thesis by (simp add: bit_toInt32 bit_simps)
qed

lemma bit_js_shl:
  "n < 32 \<Longrightarrow> bit (js_shl a n) k = (n \<le> min 31 k \<and> bit a (min 31 k - n))"
proof -
  assume n: "n < 32"
  have "js_shl a n = signed_take_bit 31 (push_bit n (signed_take_bit 31 a))"
    using n by (simp add: js_shl_def toInt32_signed_take_bit push_bit_eq_mult)
  then show ?thesis
    using n by (auto simp add: bit_signed_take_bit_iff bit_push_bit_iff_int)
qed

lemma bit_js_shr: "n < 32 \<Longrightarrow> bit (js_shr a n) k = bit a (min 31 (n + k))"
  by (simp add: js_shr_def toInt32_signed_take_bit drop_bit_eq_div [symmetric] bit_simps)

lemma bit_js_ushr: "n < 32 \<Longrightarrow> bit (js_ushr a n) k = (n + k < 32 \<and> bit a (n + k))"
  by (simp add: js_ushr_def toUint32_take_bit drop_bit_eq_div [symmetric] bit_simps)

lemmas bit_js = bit_toInt32 bit_toUint32 bit_js_and bit_js_or bit_js_xor bit_js_not
  bit_js_shl bit_js_shr bit_js_ushr

lemma js_ushr_0 [simp]: "js_ushr a 0 = toUint32 a"
  by (simp add: js_ushr_def)

lemma neg_low_bit: "- (js_and x 1) = (if bit x 0 then - 1 else 0)"
proof -
  have "x AND 1 = (if odd x then 1 else 0)"
    by (auto simp add: and_one_eq odd_iff_mod_2_eq_one)
  moreover have "js_and x 1 = signed_take_bit 31 (x AND 1)"
    by (simp add: bit_eq_iff bit_js bit_simps)
  ultimately have "js_and x 1 = (if odd x then 1 else 0)"
    by simp
  then show ?thesis by (simp add: bit_0)
qed

lemma bit_neg_low_bit: "bit (- (js_and x 1)) k = bit x 0"
  by (simp add: neg_low_bit)

section \<open>The zigzag round trip\<close>

text \<open>
  Encoding and then decoding gives back the 32 bits of each half. The operators return
  signed numbers, so what the last continuation receives is the signed reading of each
  half, whatever numbers the halves were given as.
\<close>

lemma zigzag64_roundtrip_int32:
  "toZigzag64 bitsLow bitsHigh (\<lambda>l h. fromZigzag64 l h convert)
     = convert (toInt32 bitsLow) (toInt32 bitsHigh)"
proof -
  let ?m = "js_shr bitsHigh 31"
  let ?h = "js_xor (js_or (js_shl bitsHigh 1) (js_ushr bitsLow 31)) ?m"
  let ?l = "js_xor (js_shl bitsLow 1) ?m"
  let ?s = "- (js_and ?l 1)"
  have low: "js_xor (js_or (js_ushr ?l 1) (js_shl ?h 31)) ?s = toInt32 bitsLow"
  proof (rule bit_eqI)
    fix n
    show "bit (js_xor (js_or (js_ushr ?l 1) (js_shl ?h 31)) ?s) n = bit (toInt32 bitsLow) n"
      by (cases "n < 31") (auto simp add: bit_js bit_neg_low_bit)
  qed
  have high: "js_xor (js_ushr ?h 1) ?s = toInt32 bitsHigh"
  proof (rule bit_eqI)
    fix n
    show "bit (js_xor (js_ushr ?h 1) ?s) n = bit (toInt32 bitsHigh) n"
      by (cases "n < 31") (auto simp add: bit_js bit_neg_low_bit)
  qed
  show ?thesis
    unfolding toZigzag64_def fromZigzag64_def Let_def low high ..
qed

lemma fromZigzag64_toUint32:
  "fromZigzag64 (toUint32 l) (toUint32 h) convert = fromZigzag64 l h convert"
proof -
  have "js_and (toUint32 l) 1 = js_and l 1"
    by (simp add: js_and_def)
  moreover have "js_ushr (toUint32 l) 1 = js_ushr l 1" "js_ushr (toUint32 h) 1 = js_ushr h 1"
    by (simp_all add: js_ushr_def toUint32_def)
  moreover have "js_shl (toUint32 h) 31 = js_shl h 31"
    by (simp add: js_shl_def)
  ultimately show ?thesis
    by (simp add: fromZigzag64_def)
qed

lemma split64_unsigned64:
  "split64 (unsigned64 l h) = (toUint32 l, toUint32 h)"
proof -
  have r: "0 \<le> toUint32 l" "toUint32 l < 4294967296" "0 \<le> toUint32 h" "toUint32 h < 4294967296"
    by (simp_all add: toUint32_range)
  have "(toUint32 h * 4294967296 + toUint32 l) mod 4294967296 = toUint32 l"
    using r by simp
  moreover have "(toUint32 h * 4294967296 + toUint32 l) div 4294967296 = toUint32 h"
    using r by simp
  ultimately show ?thesis
    using r by (simp add: split64_def unsigned64_def)
qed

lemma signed64_split64:
  assumes "- (2 ^ 63) \<le> v" "v < 2 ^ 63"
  shows "(case split64 v of (l, h) \<Rightarrow> signed64 (toInt32 l) (toInt32 h)) = v"
proof -
  have u: "unsigned64 (toInt32 (v mod 2 ^ 32)) (toInt32 ((v div 2 ^ 32) mod 2 ^ 32)) = v mod 2 ^ 64"
  proof -
    have "unsigned64 (toInt32 (v mod 2 ^ 32)) (toInt32 ((v div 2 ^ 32) mod 2 ^ 32))
          = ((v div 2 ^ 32) mod 2 ^ 32) * 2 ^ 32 + v mod 2 ^ 32"
      by (simp add: unsigned64_def) (simp add: toUint32_def)
    also have "\<dots> = v mod 2 ^ 64"
    proof -
      have "v mod (2 ^ 32 * 2 ^ 32) = 2 ^ 32 * ((v div 2 ^ 32) mod 2 ^ 32) + v mod 2 ^ 32"
        by (rule zmod_zmult2_eq) simp
      then show ?thesis by (simp add: mult.commute)
    qed
    finally show ?thesis .
  qed
  show ?thesis
  proof (cases "0 \<le> v")
    case True
    then have "v mod 2 ^ 64 = v" using assms by simp
    then show ?thesis using assms True u by (simp add: split64_def signed64_def Let_def)
  next
    case False
    have "v mod 18446744073709551616 = (v + 18446744073709551616) mod 18446744073709551616"
      by simp
    also have "\<dots> = v + 18446744073709551616"
      using assms False by (intro mod_pos_pos_trivial) simp_all
    finally have "v mod 2 ^ 64 = v + 2 ^ 64" by simp
    then show ?thesis using assms False u by (simp add: split64_def signed64_def Let_def)
  qed
qed

lemma decode_encode_zigzag:
  assumes "- (2 ^ 63) \<le> v" "v < 2 ^ 63"
  shows "decode_zigzag (encode_zigzag v) = v"
proof -
  obtain l h where lh: "split64 v = (l, h)" by (cases "split64 v")
  obtain l' h' where z: "toZigzag64 l h Pair = (l', h')" by (cases "toZigzag64 l h Pair")
  have enc: "encode_zigzag v = unsigned64 l' h'"
    using z by (simp add: encode_zigzag_def lh toZigzag64_def Let_def)
  have "decode_zigzag (encode_zigzag v) = fromZigzag64 l' h' signed64"
    by (simp add: decode_zigzag_def enc split64_unsigned64 fromZigzag64_toUint32)
  also have "\<dots> = toZigzag64 l h (\<lambda>a b. fromZigzag64 a b signed64)"
    using z by (simp add: toZigzag64_def Let_def)
  also have "\<dots> = signed64 (toInt32 l) (toInt32 h)"
    by (rule zigzag64_roundtrip_int32)
  also have "\<dots> = v"
    using signed64_split64 [OF assms] by (simp add: lh)
  finally show ?thesis .
qed

text \<open>The cases of the table of the test suite, original and encoded.\<close>

lemma zigzag_table:
  "encode_zigzag 0 = 0 \<and> decode_zigzag 0 = 0"
  "encode_zigzag (- 1) = 1 \<and> decode_zigzag 1 = - 1"
  "encode_zigzag 1 = 2 \<and> decode_zigzag 2 = 1"
  "encode_zigzag (- 2) = 3 \<and> decode_zigzag 3 = - 2"
  "encode_zigzag 2147483647 = 4294967294 \<and> decode_zigzag 4294967294 = 2147483647"
  "encode_zigzag (- 2147483648) = 4294967295 \<and> decode_zigzag 4294967295 = - 2147483648"
  "encode_zigzag 9223372036854775807 = 18446744073709551614
   \<and> decode_zigzag 18446744073709551614 = 9223372036854775807"
  "encode_zigzag (- 9223372036854775808) = 18446744073709551615
   \<and> decode_zigzag 18446744073709551615 = - 9223372036854775808"
  by code_simp+

text \<open>
  C1 (amended). For a split pair with both halves in \<open>[0, 2 ^ 32)\<close>, \<open>toZigzag64\<close>
  followed by \<open>fromZigzag64\<close> hands the last continuation the signed 32-bit reading of
  each half: the same 32 bits, so \<open>>>> 0\<close> on each gives the original pair, and the
  original pair itself when both halves are below \<open>2 ^ 31\<close>. On 64-bit signed values
  decoding the encoding of \<open>v\<close> gives \<open>v\<close>.
\<close>

theorem zigzag64_roundtrip:
  assumes "0 \<le> bitsLow" "bitsLow < 2 ^ 32" "0 \<le> bitsHigh" "bitsHigh < 2 ^ 32"
    and "- (2 ^ 63) \<le> v" "v < 2 ^ 63"
  shows "toZigzag64 bitsLow bitsHigh (\<lambda>l h. fromZigzag64 l h Pair)
           = (toInt32 bitsLow, toInt32 bitsHigh)
         \<and> toZigzag64 bitsLow bitsHigh (\<lambda>l h. fromZigzag64 l h (\<lambda>a b. (js_ushr a 0, js_ushr b 0)))
           = (bitsLow, bitsHigh)
         \<and> (bitsLow < 2 ^ 31 \<and> bitsHigh < 2 ^ 31 \<longrightarrow>
              toZigzag64 bitsLow bitsHigh (\<lambda>l h. fromZigzag64 l h Pair) = (bitsLow, bitsHigh))
         \<and> decode_zigzag (encode_zigzag v) = v"
proof (intro conjI impI)
  show "toZigzag64 bitsLow bitsHigh (\<lambda>l h. fromZigzag64 l h Pair)
          = (toInt32 bitsLow, toInt32 bitsHigh)"
    by (rule zigzag64_roundtrip_int32)
  show "toZigzag64 bitsLow bitsHigh (\<lambda>l h. fromZigzag64 l h (\<lambda>a b. (js_ushr a 0, js_ushr b 0)))
          = (bitsLow, bitsHigh)"
    using assms(1-4) by (simp add: zigzag64_roundtrip_int32 toUint32_id)
  show "decode_zigzag (encode_zigzag v) = v"
    using assms(5,6) by (rule decode_encode_zigzag)
next
  assume "bitsLow < 2 ^ 31 \<and> bitsHigh < 2 ^ 31"
  then show "toZigzag64 bitsLow bitsHigh (\<lambda>l h. fromZigzag64 l h Pair) = (bitsLow, bitsHigh)"
    using assms(1,3) by (simp add: zigzag64_roundtrip_int32 toInt32_id)
qed

theorem zigzag64_roundtrip_witness:
  "toZigzag64 4294967295 7 (\<lambda>l h. fromZigzag64 l h Pair) = (toInt32 4294967295, toInt32 7)
   \<and> toZigzag64 4294967295 7 (\<lambda>l h. fromZigzag64 l h (\<lambda>a b. (js_ushr a 0, js_ushr b 0)))
       = (4294967295, 7)
   \<and> decode_zigzag (encode_zigzag (- 2147483648)) = - 2147483648"
  using zigzag64_roundtrip [of 4294967295 7 "- 2147483648"] by simp

text \<open>
  The claim as stated fails where a half has its top bit set: the pair
  \<open>(4294967295, 0)\<close> comes back as \<open>(-1, 0)\<close>.
\<close>

theorem zigzag64_roundtrip_counterexample:
  "toZigzag64 4294967295 0 (\<lambda>l h. fromZigzag64 l h Pair) = (- 1, 0)
   \<and> toZigzag64 4294967295 0 (\<lambda>l h. fromZigzag64 l h Pair) \<noteq> (4294967295, 0)"
  by (simp add: zigzag64_roundtrip_int32 toInt32_def)

section \<open>The error condition of the decoder\<close>

text \<open>
  C8 (amended). \<open>getError\<close> is true exactly when the error flag is set, the cursor is
  negative or the cursor is past \<open>end\<close>: the lower bound it tests is 0, not \<open>start\<close>.
  So it is false when the flag is clear and \<open>start \<le> cursor \<le> end\<close> with a start that
  is not negative, and it is also false for a cursor in \<open>[0, start)\<close>.
\<close>

theorem getError_condition:
  "getError this = (error this \<or> cursor this < 0 \<or> end_pos this < cursor this)
   \<and> (cursor this < 0 \<or> end_pos this < cursor this \<longrightarrow> getError this)
   \<and> (\<not> error this \<and> 0 \<le> start this \<and> start this \<le> cursor this
        \<and> cursor this \<le> end_pos this \<longrightarrow> \<not> getError this)
   \<and> (\<not> error this \<and> 0 \<le> cursor this \<and> cursor this < start this
        \<and> cursor this \<le> end_pos this \<longrightarrow> \<not> getError this)"
  by (auto simp add: getError_def)

theorem getError_condition_witness:
  "getError \<lparr>bytes = Some [7, 8, 9], start = 1, end_pos = 3, cursor = 4, error = False\<rparr>
   \<and> \<not> getError \<lparr>bytes = Some [7, 8, 9], start = 1, end_pos = 3, cursor = 2, error = False\<rparr>
   \<and> \<not> getError \<lparr>bytes = Some [7, 8, 9], start = 1, end_pos = 3, cursor = 0, error = False\<rparr>"
  using
    getError_condition [of "\<lparr>bytes = Some [7, 8, 9], start = 1, end_pos = 3, cursor = 4, error = False\<rparr>"]
    getError_condition [of "\<lparr>bytes = Some [7, 8, 9], start = 1, end_pos = 3, cursor = 2, error = False\<rparr>"]
    getError_condition [of "\<lparr>bytes = Some [7, 8, 9], start = 1, end_pos = 3, cursor = 0, error = False\<rparr>"]
  by simp

text \<open>
  The claim as stated fails below \<open>start\<close>: a decoder set on the window \<open>[2, 5]\<close> of
  six bytes and moved to cursor 1 has its cursor outside the window and a clear flag,
  and \<open>getError\<close> is false.
\<close>

theorem getError_counterexample:
  "setCursor 1 (setBlock [0, 0, 0, 0, 0, 0] (Some 2) (Some 3) (new_BinaryDecoder None None None))
     = \<lparr>bytes = Some [0, 0, 0, 0, 0, 0], start = 2, end_pos = 5, cursor = 1, error = False\<rparr>
   \<and> cursor \<lparr>bytes = Some [0, 0, 0, 0, 0, 0], start = 2, end_pos = 5, cursor = 1, error = False\<rparr>
       < start \<lparr>bytes = Some [0, 0, 0, 0, 0, 0], start = 2, end_pos = 5, cursor = 1, error = False\<rparr>
   \<and> \<not> getError \<lparr>bytes = Some [0, 0, 0, 0, 0, 0], start = 2, end_pos = 5, cursor = 1, error = False\<rparr>"
  by (simp add: getError_def setCursor_def setBlock_def new_BinaryDecoder_def)

section \<open>The instance cache\<close>

lemma alloc_empty: "alloc None None None [] = (new_BinaryDecoder None None None, [])"
  by (simp add: alloc_def)

lemma alloc_free_empty: "alloc_free [] = [clear (new_BinaryDecoder None None None)]"
  by (simp add: alloc_free_def alloc_def free_def Let_def)

lemma alloc_free_single: "alloc_free [d] = [clear d]"
  by (simp add: alloc_free_def alloc_def free_def Let_def)

lemma alloc_free_pow_Suc: "\<exists>d. (alloc_free ^^ Suc n) [] = [d]"
  by (induction n) (auto simp add: alloc_free_empty alloc_free_single)

lemma alloc_free_pow_length: "length ((alloc_free ^^ n) []) = min n 1"
proof (cases n)
  case 0
  then show ?thesis by simp
next
  case (Suc m)
  obtain d where "(alloc_free ^^ Suc m) [] = [d]"
    using alloc_free_pow_Suc by blast
  then show ?thesis using Suc by simp
qed

lemma alloc_many_empty:
  "alloc_many n [] = (replicate n (new_BinaryDecoder None None None), [])"
  by (induction n) (simp_all add: alloc_empty)

lemma free_length: "length (snd (free d c)) = (if length c < 100 then length c + 1 else length c)"
  by (simp add: free_def Let_def)

lemma free_all_length:
  "length c \<le> 100 \<Longrightarrow> length (free_all ds c) = min (length c + length ds) 100"
proof (induction ds arbitrary: c)
  case Nil
  then show ?case by simp
next
  case (Cons d ds)
  have "length (snd (free d c)) \<le> 100"
    using Cons.prems by (simp add: free_length)
  then have "length (free_all ds (snd (free d c))) = min (length (snd (free d c)) + length ds) 100"
    by (rule Cons.IH)
  then show ?case using Cons.prems by (auto simp add: free_length)
qed

lemma alloc_length: "length (snd (alloc b s l c)) = length c - 1"
  by (simp add: alloc_def Let_def split: option.split)

text \<open>
  C9 (amended). From the empty pool, \<open>n\<close> rounds of \<open>alloc().free()\<close> leave \<open>min n 1\<close>
  decoders in the pool, since each \<open>alloc\<close> takes back the decoder the round before
  freed. \<open>n\<close> decoders allocated and then all freed leave \<open>min n 100\<close>. The pool never
  exceeds 100: \<open>free\<close> and \<open>alloc\<close> keep the bound, \<open>free\<close> discarding the decoder
  when the pool holds 100.
\<close>

theorem pool_size:
  "length ((alloc_free ^^ n) []) = min n 1
   \<and> length (case alloc_many n [] of (ds, c) \<Rightarrow> free_all ds c) = min n 100
   \<and> (length instanceCache \<le> 100 \<longrightarrow>
        length (snd (free this instanceCache)) \<le> 100
        \<and> length (snd (alloc bytes0 start0 length0 instanceCache)) \<le> 100
        \<and> length (alloc_free instanceCache) \<le> 100)
   \<and> (length instanceCache = 100 \<longrightarrow> snd (free this instanceCache) = instanceCache)"
proof (intro conjI impI)
  show "length ((alloc_free ^^ n) []) = min n 1"
    by (rule alloc_free_pow_length)
  show "length (case alloc_many n [] of (ds, c) \<Rightarrow> free_all ds c) = min n 100"
    by (simp add: alloc_many_empty free_all_length)
next
  assume a: "length instanceCache \<le> 100"
  show "length (snd (free this instanceCache)) \<le> 100"
    using a by (simp add: free_length)
  show "length (snd (alloc bytes0 start0 length0 instanceCache)) \<le> 100"
    using a by (simp add: alloc_length)
  have "length (snd (alloc None None None instanceCache)) \<le> 100"
    using a by (simp add: alloc_length)
  then show "length (alloc_free instanceCache) \<le> 100"
    by (cases "alloc None None None instanceCache") (simp add: alloc_free_def free_length)
next
  assume "length instanceCache = 100"
  then show "snd (free this instanceCache) = instanceCache"
    by (simp add: free_def Let_def)
qed

theorem pool_size_witness:
  "length ((alloc_free ^^ 101) []) = 1
   \<and> length (case alloc_many 101 [] of (ds, c) \<Rightarrow> free_all ds c) = 100
   \<and> length (snd (free (new_BinaryDecoder None None None) [])) \<le> 100
   \<and> length (alloc_free []) \<le> 100"
  using pool_size [of 101 "[]" "new_BinaryDecoder None None None" None None None]
  by simp

text \<open>
  The claim as stated fails from the second round on: after two rounds of
  \<open>alloc().free()\<close> the pool holds one decoder, not two, and after 101 rounds one, not
  100.
\<close>

theorem pool_size_counterexample:
  "length ((alloc_free ^^ 2) []) = 1 \<and> min (2 :: nat) 100 = 2
   \<and> length ((alloc_free ^^ 101) []) = 1"
  by (simp add: alloc_free_pow_length)

section \<open>What a read leaves unchanged\<close>

definition same_block :: "BinaryDecoder \<Rightarrow> BinaryDecoder \<Rightarrow> bool" where
  "same_block this this' =
     (bytes this' = bytes this \<and> start this' = start this \<and> end_pos this' = end_pos this)"

lemma same_block_refl [simp]: "same_block this this"
  by (simp add: same_block_def)

lemma same_block_cursor [simp]: "same_block this (this\<lparr>cursor := c\<rparr>)"
  by (simp add: same_block_def)

lemma same_block_error [simp]: "same_block this (this\<lparr>error := e\<rparr>)"
  by (simp add: same_block_def)

lemma same_block_trans:
  "same_block a b \<Longrightarrow> same_block b c \<Longrightarrow> same_block a c"
  by (simp add: same_block_def)

lemma same_block_assert_cursor [simp]:
  "same_block this (snd (assert_cursor v this')) = same_block this this'"
  by (simp add: assert_cursor_def)

lemma same_block_and_then:
  assumes "same_block this (snd r)"
    and "\<And>v this'. same_block this this' \<Longrightarrow> same_block this (snd (f v this'))"
  shows "same_block this (snd (and_then r f))"
proof (cases r)
  case (Pair res this')
  then show ?thesis
    using assms by (cases res) (simp_all add: and_then_def)
qed

lemma same_block_readSplitVarint64 [simp]:
  "same_block this (snd (readSplitVarint64 convert this))"
  by (simp add: readSplitVarint64_def Let_def split: option.split prod.split)

lemma same_block_readSplitFixed64 [simp]:
  "same_block this (snd (readSplitFixed64 convert this))"
  by (simp add: readSplitFixed64_def split: option.split prod.split)

lemma same_block_readUnsignedVarint32 [simp]:
  "same_block this (snd (readUnsignedVarint32 this))"
  by (simp add: readUnsignedVarint32_def Let_def split: option.split)

lemma same_block_readUint32 [simp]: "same_block this (snd (readUint32 this))"
  by (simp add: readUint32_def Let_def split: option.split)

lemma same_block_two_words:
  "same_block this
     (snd (and_then (readUint32 this) (\<lambda>bitsLow this'.
             and_then (readUint32 this') (\<lambda>bitsHigh this''.
               (Inr (join bitsLow bitsHigh), this'')))))"
proof (rule same_block_and_then)
  show "same_block this (snd (readUint32 this))" by simp
next
  fix v this'
  assume a: "same_block this this'"
  show "same_block this
          (snd (and_then (readUint32 this') (\<lambda>bitsHigh this''. (Inr (join v bitsHigh), this''))))"
  proof (rule same_block_and_then)
    show "same_block this (snd (readUint32 this'))"
      using a same_block_readUint32 [of this'] by (rule same_block_trans)
  qed simp
qed

lemma same_block_readString [simp]: "same_block this (snd (readString len this))"
  by (simp add: readString_def split: option.split prod.split)

text \<open>The reads one by one.\<close>

lemma same_block_reads:
  "same_block this (snd (readSplitVarint64 convert this))"
  "same_block this (snd (readSplitZigzagVarint64 convert this))"
  "same_block this (snd (readSplitFixed64 convert this))"
  "same_block this (snd (readUnsignedVarint32 this))"
  "same_block this (snd (readSignedVarint32 this))"
  "same_block this (snd (readUnsignedVarint32String this))"
  "same_block this (snd (readSignedVarint32String this))"
  "same_block this (snd (readZigzagVarint32 this))"
  "same_block this (snd (readUnsignedVarint64 joinUint64 this))"
  "same_block this (snd (readUnsignedVarint64String this))"
  "same_block this (snd (readSignedVarint64 joinInt64 this))"
  "same_block this (snd (readSignedVarint64String this))"
  "same_block this (snd (readZigzagVarint64 joinZigzag64 this))"
  "same_block this (snd (readZigzagVarintHash64 this))"
  "same_block this (snd (readZigzagVarint64String this))"
  "same_block this (snd (readUint8 this))"
  "same_block this (snd (readUint16 this))"
  "same_block this (snd (readUint32 this))"
  "same_block this (snd (readUint64 joinUint64' this))"
  "same_block this (snd (readUint64String this))"
  "same_block this (snd (readInt8 this))"
  "same_block this (snd (readInt16 this))"
  "same_block this (snd (readInt32 this))"
  "same_block this (snd (readInt64 joinInt64' this))"
  "same_block this (snd (readInt64String this))"
  "same_block this (snd (readFloat joinFloat32 this))"
  "same_block this (snd (readDouble joinFloat64 this))"
  "same_block this (snd (readBool this))"
  "same_block this (snd (readEnum this))"
  "same_block this (snd (readString len this))"
  "same_block this (snd (readStringWithLength this))"
  "same_block this (snd (readBytes len this))"
  "same_block this (snd (readVarintHash64 this))"
  "same_block this (snd (readFixedHash64 this))"
proof -
  show "same_block this (snd (readSplitVarint64 convert this))" by simp
  show "same_block this (snd (readSplitZigzagVarint64 convert this))"
    by (simp add: readSplitZigzagVarint64_def)
  show "same_block this (snd (readSplitFixed64 convert this))" by simp
  show "same_block this (snd (readUnsignedVarint32 this))" by simp
  show "same_block this (snd (readSignedVarint32 this))"
    by (simp add: readSignedVarint32_def)
  show "same_block this (snd (readUnsignedVarint32String this))"
    unfolding readUnsignedVarint32String_def by (rule same_block_and_then) simp_all
  show "same_block this (snd (readSignedVarint32String this))"
    unfolding readSignedVarint32String_def readSignedVarint32_def
    by (rule same_block_and_then) simp_all
  show "same_block this (snd (readZigzagVarint32 this))"
    unfolding readZigzagVarint32_def by (rule same_block_and_then) simp_all
  show "same_block this (snd (readUnsignedVarint64 joinUint64 this))"
    by (simp add: readUnsignedVarint64_def)
  show "same_block this (snd (readUnsignedVarint64String this))"
    by (simp add: readUnsignedVarint64String_def)
  show "same_block this (snd (readSignedVarint64 joinInt64 this))"
    by (simp add: readSignedVarint64_def)
  show "same_block this (snd (readSignedVarint64String this))"
    by (simp add: readSignedVarint64String_def)
  show "same_block this (snd (readZigzagVarint64 joinZigzag64 this))"
    by (simp add: readZigzagVarint64_def)
  show "same_block this (snd (readZigzagVarintHash64 this))"
    by (simp add: readZigzagVarintHash64_def readSplitZigzagVarint64_def)
  show "same_block this (snd (readZigzagVarint64String this))"
    by (simp add: readZigzagVarint64String_def readSplitZigzagVarint64_def)
  show "same_block this (snd (readUint8 this))"
    by (simp add: readUint8_def Let_def split: option.split)
  show "same_block this (snd (readUint16 this))"
    by (simp add: readUint16_def Let_def split: option.split)
  show "same_block this (snd (readUint32 this))" by simp
  show "same_block this (snd (readUint64 joinUint64' this))"
    unfolding readUint64_def by (rule same_block_two_words)
  show "same_block this (snd (readUint64String this))"
    unfolding readUint64String_def by (rule same_block_two_words)
  show "same_block this (snd (readInt8 this))"
    by (simp add: readInt8_def Let_def split: option.split)
  show "same_block this (snd (readInt16 this))"
    by (simp add: readInt16_def Let_def split: option.split)
  show "same_block this (snd (readInt32 this))"
    by (simp add: readInt32_def Let_def split: option.split)
  show "same_block this (snd (readInt64 joinInt64' this))"
    unfolding readInt64_def by (rule same_block_two_words)
  show "same_block this (snd (readInt64String this))"
    unfolding readInt64String_def by (rule same_block_two_words)
  show "same_block this (snd (readFloat joinFloat32 this))"
    unfolding readFloat_def by (rule same_block_and_then) simp_all
  show "same_block this (snd (readDouble joinFloat64 this))"
    unfolding readDouble_def by (rule same_block_two_words)
  show "same_block this (snd (readBool this))"
    by (simp add: readBool_def split: option.split)
  show "same_block this (snd (readEnum this))"
    by (simp add: readEnum_def readSignedVarint32_def)
  show "same_block this (snd (readString len this))" by simp
  show "same_block this (snd (readStringWithLength this))"
    unfolding readStringWithLength_def
  proof (rule same_block_and_then)
    fix v this'
    assume "same_block this this'"
    then show "same_block this (snd (readString v this'))"
      using same_block_readString [of this' v] by (rule same_block_trans)
  qed simp
  show "same_block this (snd (readBytes len this))"
    by (simp add: readBytes_def Let_def split: option.split)
  show "same_block this (snd (readVarintHash64 this))"
    by (simp add: readVarintHash64_def)
  show "same_block this (snd (readFixedHash64 this))"
    by (simp add: readFixedHash64_def Let_def split: option.split)
qed

text \<open>
  C10. Every read leaves \<open>bytes\<close>, \<open>start\<close> and \<open>end\<close> as they were, whether it
  returns or throws; only the cursor and the error flag can differ afterwards.
\<close>

theorem reads_keep_block:
  "same_block this (snd (readSplitVarint64 convert this))
   \<and> same_block this (snd (readSplitZigzagVarint64 convert this))
   \<and> same_block this (snd (readSplitFixed64 convert this))
   \<and> same_block this (snd (readUnsignedVarint32 this))
   \<and> same_block this (snd (readSignedVarint32 this))
   \<and> same_block this (snd (readUnsignedVarint32String this))
   \<and> same_block this (snd (readSignedVarint32String this))
   \<and> same_block this (snd (readZigzagVarint32 this))
   \<and> same_block this (snd (readUnsignedVarint64 joinUint64 this))
   \<and> same_block this (snd (readUnsignedVarint64String this))
   \<and> same_block this (snd (readSignedVarint64 joinInt64 this))
   \<and> same_block this (snd (readSignedVarint64String this))
   \<and> same_block this (snd (readZigzagVarint64 joinZigzag64 this))
   \<and> same_block this (snd (readZigzagVarintHash64 this))
   \<and> same_block this (snd (readZigzagVarint64String this))
   \<and> same_block this (snd (readUint8 this))
   \<and> same_block this (snd (readUint16 this))
   \<and> same_block this (snd (readUint32 this))
   \<and> same_block this (snd (readUint64 joinUint64' this))
   \<and> same_block this (snd (readUint64String this))
   \<and> same_block this (snd (readInt8 this))
   \<and> same_block this (snd (readInt16 this))
   \<and> same_block this (snd (readInt32 this))
   \<and> same_block this (snd (readInt64 joinInt64' this))
   \<and> same_block this (snd (readInt64String this))
   \<and> same_block this (snd (readFloat joinFloat32 this))
   \<and> same_block this (snd (readDouble joinFloat64 this))
   \<and> same_block this (snd (readBool this))
   \<and> same_block this (snd (readEnum this))
   \<and> same_block this (snd (readString len this))
   \<and> same_block this (snd (readStringWithLength this))
   \<and> same_block this (snd (readBytes len this))
   \<and> same_block this (snd (readVarintHash64 this))
   \<and> same_block this (snd (readFixedHash64 this))"
  by (intro conjI) (rule same_block_reads)+

section \<open>Reads and the end of the block\<close>

text \<open>
  The reads that carry \<open>assert(this.cursor <= this.end)\<close> return a value only with
  the cursor at or before \<open>end\<close>, and the cursor has then moved by the width of the
  value read.
\<close>

lemma assert_cursor_Inr:
  "assert_cursor v this' = (Inr w, this'') \<Longrightarrow> w = v \<and> this'' = this' \<and> cursor this' \<le> end_pos this'"
  by (auto simp add: assert_cursor_def split: if_splits)

lemma asserting_reads_stay_in_block:
  "readUint8 this = (Inr a, this') \<Longrightarrow> cursor this' = cursor this + 1 \<and> cursor this' \<le> end_pos this'"
  "readUint16 this = (Inr v, this') \<Longrightarrow> cursor this' = cursor this + 2 \<and> cursor this' \<le> end_pos this'"
  "readUint32 this = (Inr v, this') \<Longrightarrow> cursor this' = cursor this + 4 \<and> cursor this' \<le> end_pos this'"
  "readInt8 this = (Inr v, this') \<Longrightarrow> cursor this' = cursor this + 1 \<and> cursor this' \<le> end_pos this'"
  "readInt16 this = (Inr v, this') \<Longrightarrow> cursor this' = cursor this + 2 \<and> cursor this' \<le> end_pos this'"
  "readInt32 this = (Inr v, this') \<Longrightarrow> cursor this' = cursor this + 4 \<and> cursor this' \<le> end_pos this'"
  "readBytes len this = (Inr bs, this') \<Longrightarrow> cursor this' = cursor this + len \<and> cursor this' \<le> end_pos this'"
  "readUnsignedVarint32 this = (Inr v, this') \<Longrightarrow> cursor this' \<le> end_pos this'"
  by (auto simp add: readUint8_def readUint16_def readUint32_def readInt8_def readInt16_def
        readInt32_def readBytes_def readUnsignedVarint32_def Let_def
      split: option.splits if_splits dest!: assert_cursor_Inr)

text \<open>
  C5. \<open>readBool\<close>, \<open>readFixedHash64\<close>, \<open>readSplitVarint64\<close>, \<open>readSplitFixed64\<close> and
  \<open>readString\<close> have no such assertion. On a decoder whose block ends before the bytes
  they consume, each returns its value with the cursor past \<open>end\<close>, where \<open>readUint8\<close>
  and \<open>readUint32\<close> throw.
\<close>

theorem reads_return_past_end:
  "readBool \<lparr>bytes = Some [1], start = 0, end_pos = 0, cursor = 0, error = False\<rparr>
     = (Inr True, \<lparr>bytes = Some [1], start = 0, end_pos = 0, cursor = 1, error = False\<rparr>)
   \<and> readUint8 \<lparr>bytes = Some [1], start = 0, end_pos = 0, cursor = 0, error = False\<rparr>
     = (Inl AssertionError, \<lparr>bytes = Some [1], start = 0, end_pos = 0, cursor = 1, error = False\<rparr>)
   \<and> readFixedHash64 \<lparr>bytes = Some [1, 2, 3, 4, 5, 6, 7, 8], start = 0, end_pos = 4, cursor = 0, error = False\<rparr>
     = (Inr [1, 2, 3, 4, 5, 6, 7, 8],
        \<lparr>bytes = Some [1, 2, 3, 4, 5, 6, 7, 8], start = 0, end_pos = 4, cursor = 8, error = False\<rparr>)
   \<and> readSplitFixed64 Pair \<lparr>bytes = Some [1, 2, 3, 4, 5, 6, 7, 8], start = 0, end_pos = 4, cursor = 0, error = False\<rparr>
     = (Inr (67305985, 134678021),
        \<lparr>bytes = Some [1, 2, 3, 4, 5, 6, 7, 8], start = 0, end_pos = 4, cursor = 8, error = False\<rparr>)
   \<and> readSplitVarint64 Pair \<lparr>bytes = Some [172, 2], start = 0, end_pos = 1, cursor = 0, error = False\<rparr>
     = (Inr (300, 0), \<lparr>bytes = Some [172, 2], start = 0, end_pos = 1, cursor = 2, error = False\<rparr>)
   \<and> readUint32 \<lparr>bytes = Some [1, 2, 3, 4, 5, 6, 7, 8], start = 0, end_pos = 3, cursor = 0, error = False\<rparr>
     = (Inl AssertionError,
        \<lparr>bytes = Some [1, 2, 3, 4, 5, 6, 7, 8], start = 0, end_pos = 3, cursor = 4, error = False\<rparr>)
   \<and> readString 2 \<lparr>bytes = Some [72, 105], start = 0, end_pos = 1, cursor = 0, error = False\<rparr>
     = (Inr [72, 105], \<lparr>bytes = Some [72, 105], start = 0, end_pos = 1, cursor = 2, error = False\<rparr>)"
  by code_simp

section \<open>The overflow bytes of a 32-bit varint\<close>

text \<open>
  The number that five bytes of a varint carry in their low 32 bits: seven bits of each
  of the first four and four bits of the fifth.
\<close>

definition varint32_bits :: "int \<Rightarrow> int \<Rightarrow> int \<Rightarrow> int \<Rightarrow> int \<Rightarrow> int" where
  "varint32_bits b0 b1 b2 b3 b4 =
     b0 mod 128 + (b1 mod 128) * 2 ^ 7 + (b2 mod 128) * 2 ^ 14 + (b3 mod 128) * 2 ^ 21
       + (b4 mod 16) * 2 ^ 28"

lemma js_and_mask: "n \<le> 31 \<Longrightarrow> js_and b (mask n) = take_bit n b"
  by (rule bit_eqI) (auto simp add: bit_js bit_simps)

lemma js_and_127: "js_and b 0x7f = take_bit 7 b"
  using js_and_mask [of 7 b] by (simp add: mask_eq_exp_minus_1)

lemma js_and_15: "js_and b 0x0f = take_bit 4 b"
  using js_and_mask [of 4 b] by (simp add: mask_eq_exp_minus_1)

lemma varint32_bits_concat:
  "varint32_bits b0 b1 b2 b3 b4
     = concat_bit 7 b0 (concat_bit 7 b1 (concat_bit 7 b2 (concat_bit 7 b3 (take_bit 4 b4))))"
  by (simp add: varint32_bits_def concat_bit_eq take_bit_eq_mod push_bit_eq_mult)

lemma varint32_accumulate:
  "js_or (js_or (js_or (js_or (js_and b0 0x7f) (js_shl (js_and b1 0x7f) 7))
                       (js_shl (js_and b2 0x7f) 14))
                (js_shl (js_and b3 0x7f) 21))
         (js_shl (js_and b4 0x0f) 28)
     = toInt32 (varint32_bits b0 b1 b2 b3 b4)"
  unfolding js_and_127 js_and_15 varint32_bits_concat
proof (rule bit_eqI)
  fix n :: nat
  consider "n < 7" | "7 \<le> n" "n < 14" | "14 \<le> n" "n < 21" | "21 \<le> n" "n < 28"
    | "28 \<le> n" "n < 31" | "31 \<le> n"
    by linarith
  then show "bit (js_or (js_or (js_or (js_or (take_bit 7 b0) (js_shl (take_bit 7 b1) 7))
                       (js_shl (take_bit 7 b2) 14))
                (js_shl (take_bit 7 b3) 21))
         (js_shl (take_bit 4 b4) 28)) n
     = bit (toInt32 (concat_bit 7 b0 (concat_bit 7 b1 (concat_bit 7 b2
              (concat_bit 7 b3 (take_bit 4 b4)))))) n"
    by cases (auto simp add: bit_js bit_simps min_def)
qed

text \<open>The \<open>k\<close>-th byte after the first five has its high bit set.\<close>

definition extension_high :: "int list \<Rightarrow> int \<Rightarrow> nat \<Rightarrow> bool" where
  "extension_high bs c k = js_ge (byteAt bs (c + 5 + int k)) 128"

lemma all_less_5: "(\<forall>j<5. P (j :: nat)) = (P 0 \<and> P 1 \<and> P 2 \<and> P 3 \<and> P 4)"
proof -
  have "\<And>j :: nat. j < 5 \<longleftrightarrow> j = 0 \<or> j = 1 \<or> j = 2 \<or> j = 3 \<or> j = 4"
    by arith
  then show ?thesis by auto
qed

lemma readUnsignedVarint32_five:
  assumes "bytes this = Some bs"
    and "byteAt bs (cursor this) = Some b0" "128 \<le> b0"
    and "byteAt bs (cursor this + 1) = Some b1" "128 \<le> b1"
    and "byteAt bs (cursor this + 2) = Some b2" "128 \<le> b2"
    and "byteAt bs (cursor this + 3) = Some b3" "128 \<le> b3"
    and "byteAt bs (cursor this + 4) = Some b4" "128 \<le> b4"
  shows "readUnsignedVarint32 this =
     (let c5 = cursor this + 5; x = toInt32 (varint32_bits b0 b1 b2 b3 b4)
      in if extension_high bs (cursor this) 0 then
           if extension_high bs (cursor this) 1 then
             if extension_high bs (cursor this) 2 then
               if extension_high bs (cursor this) 3 then
                 if extension_high bs (cursor this) 4
                 then (Inl AssertionError, this\<lparr>cursor := c5 + 5\<rparr>)
                 else assert_cursor x (this\<lparr>cursor := c5 + 5\<rparr>)
               else assert_cursor x (this\<lparr>cursor := c5 + 4\<rparr>)
             else assert_cursor x (this\<lparr>cursor := c5 + 3\<rparr>)
           else assert_cursor x (this\<lparr>cursor := c5 + 2\<rparr>)
         else assert_cursor x (this\<lparr>cursor := c5 + 1\<rparr>))"
  using assms
  by (simp add: readUnsignedVarint32_def Let_def js_lt_def js_num_def extension_high_def
      varint32_accumulate [symmetric])

text \<open>
  C4 (amended). When the first five bytes of the varint all have the high bit set,
  \<open>readUnsignedVarint32\<close> reads on through at most five more bytes and stops at the
  first whose high bit is clear (a byte past the array counts as such). If all five of
  them have the high bit set the read fails. Otherwise, with \<open>k\<close> the position of the
  byte it stopped at, the cursor has moved by the \<open>5 + k + 1\<close> bytes read, and the read
  returns the 32 bits of the first five bytes as a signed number if the cursor is not past
  \<open>end\<close>, and fails if it is.
\<close>

theorem readUnsignedVarint32_overflow:
  assumes "bytes this = Some bs"
    and "byteAt bs (cursor this) = Some b0" "128 \<le> b0"
    and "byteAt bs (cursor this + 1) = Some b1" "128 \<le> b1"
    and "byteAt bs (cursor this + 2) = Some b2" "128 \<le> b2"
    and "byteAt bs (cursor this + 3) = Some b3" "128 \<le> b3"
    and "byteAt bs (cursor this + 4) = Some b4" "128 \<le> b4"
  shows "((\<forall>j<5. extension_high bs (cursor this) j) \<longrightarrow>
            readUnsignedVarint32 this = (Inl AssertionError, this\<lparr>cursor := cursor this + 10\<rparr>))
         \<and> (k < 5 \<and> (\<forall>j<k. extension_high bs (cursor this) j)
              \<and> \<not> extension_high bs (cursor this) k \<longrightarrow>
            readUnsignedVarint32 this =
              (if cursor this + 5 + int k + 1 \<le> end_pos this
               then (Inr (toInt32 (varint32_bits b0 b1 b2 b3 b4)),
                     this\<lparr>cursor := cursor this + 5 + int k + 1\<rparr>)
               else (Inl AssertionError, this\<lparr>cursor := cursor this + 5 + int k + 1\<rparr>)))"
proof (intro conjI impI)
  note five = readUnsignedVarint32_five [OF assms]
  {
    assume "\<forall>j<5. extension_high bs (cursor this) j"
    then show "readUnsignedVarint32 this = (Inl AssertionError, this\<lparr>cursor := cursor this + 10\<rparr>)"
      by (simp add: five all_less_5 Let_def)
  next
    assume a: "k < 5 \<and> (\<forall>j<k. extension_high bs (cursor this) j)
               \<and> \<not> extension_high bs (cursor this) k"
    then have "k = 0 \<or> k = 1 \<or> k = 2 \<or> k = 3 \<or> k = 4" by arith
    then show "readUnsignedVarint32 this =
              (if cursor this + 5 + int k + 1 \<le> end_pos this
               then (Inr (toInt32 (varint32_bits b0 b1 b2 b3 b4)),
                     this\<lparr>cursor := cursor this + 5 + int k + 1\<rparr>)
               else (Inl AssertionError, this\<lparr>cursor := cursor this + 5 + int k + 1\<rparr>))"
      using a by (elim disjE) (simp_all add: five Let_def assert_cursor_def)
  }
qed

theorem readUnsignedVarint32_overflow_witness:
  "readUnsignedVarint32
     \<lparr>bytes = Some [255, 255, 255, 255, 255, 255, 1], start = 0, end_pos = 7, cursor = 0, error = False\<rparr>
   = (Inr (- 1),
      \<lparr>bytes = Some [255, 255, 255, 255, 255, 255, 1], start = 0, end_pos = 7, cursor = 7, error = False\<rparr>)
   \<and> readUnsignedVarint32
     \<lparr>bytes = Some [128, 128, 128, 128, 128, 128, 128, 128, 128, 128], start = 0, end_pos = 10,
      cursor = 0, error = False\<rparr>
   = (Inl AssertionError,
      \<lparr>bytes = Some [128, 128, 128, 128, 128, 128, 128, 128, 128, 128], start = 0, end_pos = 10,
       cursor = 10, error = False\<rparr>)"
proof -
  let ?bs = "[255, 255, 255, 255, 255, 255, 1] :: int list"
  let ?d = "\<lparr>bytes = Some ?bs, start = 0, end_pos = 7, cursor = 0, error = False\<rparr>"
  let ?bs' = "[128, 128, 128, 128, 128, 128, 128, 128, 128, 128] :: int list"
  let ?d' = "\<lparr>bytes = Some ?bs', start = 0, end_pos = 10, cursor = 0, error = False\<rparr>"
  have ext: "(1 :: nat) < 5 \<and> (\<forall>j<1. extension_high ?bs (cursor ?d) j)
             \<and> \<not> extension_high ?bs (cursor ?d) 1"
    by (simp add: extension_high_def byteAt_def js_ge_def)
  have x: "toInt32 (varint32_bits 255 255 255 255 255) = - 1"
    by (simp add: varint32_bits_def toInt32_def)
  have ext': "\<forall>j<5. extension_high ?bs' (cursor ?d') j"
    by (simp add: all_less_5 extension_high_def byteAt_def js_ge_def)
  have "readUnsignedVarint32 ?d = (Inr (- 1), ?d\<lparr>cursor := 7\<rparr>)"
    using readUnsignedVarint32_overflow [of ?d ?bs 255 255 255 255 255 1] ext x
    by (simp add: byteAt_def)
  moreover have "readUnsignedVarint32 ?d' = (Inl AssertionError, ?d'\<lparr>cursor := 10\<rparr>)"
    using readUnsignedVarint32_overflow [of ?d' ?bs' 128 128 128 128 128 0] ext'
    by (simp add: byteAt_def)
  ultimately show ?thesis by simp
qed

text \<open>
  The claim as stated has the rule the wrong way round: an extension byte without the
  high bit ends the varint and the read returns, while ten bytes that all have the high
  bit set make it fail.
\<close>

theorem readUnsignedVarint32_overflow_counterexample:
  "readUnsignedVarint32
     \<lparr>bytes = Some [255, 255, 255, 255, 255, 1], start = 0, end_pos = 6, cursor = 0, error = False\<rparr>
   = (Inr (- 1),
      \<lparr>bytes = Some [255, 255, 255, 255, 255, 1], start = 0, end_pos = 6, cursor = 6, error = False\<rparr>)
   \<and> readUnsignedVarint32
     \<lparr>bytes = Some [255, 255, 255, 255, 255, 255, 255, 255, 255, 255, 0], start = 0,
      end_pos = 11, cursor = 0, error = False\<rparr>
   = (Inl AssertionError,
      \<lparr>bytes = Some [255, 255, 255, 255, 255, 255, 255, 255, 255, 255, 0], start = 0,
       end_pos = 11, cursor = 10, error = False\<rparr>)"
  by code_simp

section \<open>writeString and surrogates\<close>

text \<open>
  What each code unit of the string contributes to the output, stated for the position
  alone: a low surrogate right after a high one was encoded with it, a high surrogate
  forms a four-byte sequence with the low surrogate after it, nothing when another unit
  follows, and a three-byte sequence when it is the last unit; every other unit is
  encoded by its range.
\<close>

definition is_high_surrogate :: "int \<Rightarrow> bool" where
  "is_high_surrogate c = (0xd800 \<le> c \<and> c \<le> 0xdbff)"

definition is_low_surrogate :: "int \<Rightarrow> bool" where
  "is_low_surrogate c = (0xdc00 \<le> c \<and> c \<le> 0xdfff)"

definition utf8_2 :: "int \<Rightarrow> int list" where
  "utf8_2 c = [192 + c div 64, 128 + c mod 64]"

definition utf8_3 :: "int \<Rightarrow> int list" where
  "utf8_3 c = [224 + c div 4096, 128 + c div 64 mod 64, 128 + c mod 64]"

definition utf8_4 :: "int \<Rightarrow> int list" where
  "utf8_4 c = [240 + c div 262144, 128 + c div 4096 mod 64, 128 + c div 64 mod 64, 128 + c mod 64]"

definition surrogate_codepoint :: "int \<Rightarrow> int \<Rightarrow> int" where
  "surrogate_codepoint h l = 0x10000 + (h - 0xd800) * 0x400 + (l - 0xdc00)"

definition contribution :: "int list \<Rightarrow> nat \<Rightarrow> int list" where
  "contribution value i =
     (let c = value ! i in
      if 0 < i \<and> is_high_surrogate (value ! (i - 1)) \<and> is_low_surrogate c then []
      else if c < 128 then [c]
      else if c < 2048 then utf8_2 c
      else if is_high_surrogate c then
        (if i + 1 < length value then
           (if is_low_surrogate (value ! (i + 1))
            then utf8_4 (surrogate_codepoint c (value ! (i + 1)))
            else [])
         else utf8_3 c)
      else if c < 65536 then utf8_3 c
      else [])"

definition utf8_output :: "int list \<Rightarrow> int list" where
  "utf8_output value = concat (map (contribution value) [0..<length value])"

text \<open>The byte expressions of the source, as arithmetic.\<close>

lemma js_shr_nonneg: "0 \<le> c \<Longrightarrow> c < 2147483648 \<Longrightarrow> js_shr c n = c div 2 ^ (n mod 32)"
  by (simp add: js_shr_def toInt32_id)

lemma js_and_63: "js_and x 63 = x mod 64"
  using js_and_mask [of 6 x] by (simp add: mask_eq_exp_minus_1 take_bit_eq_mod)

lemma js_or_high:
  assumes "0 \<le> a" "a < 2 ^ k" "0 \<le> m" "m * 2 ^ k + a < 2147483648"
  shows "js_or a (m * 2 ^ k) = m * 2 ^ k + a"
proof -
  have m: "0 \<le> m * 2 ^ k" "m * 2 ^ k < 2147483648"
    using assms by simp_all
  have a: "a < 2147483648" using assms m by linarith
  have "toInt32 (m * 2 ^ k) = m * 2 ^ k"
    using m by (intro toInt32_id) linarith+
  moreover have "toInt32 a = a"
    using assms a by (intro toInt32_id) linarith+
  ultimately have "js_or a (m * 2 ^ k) = a OR m * 2 ^ k"
    by (simp add: js_or_def)
  also have "\<dots> = take_bit k a OR push_bit k m"
    using assms by (simp add: take_bit_int_eq_self push_bit_eq_mult)
  also have "\<dots> = take_bit k a + push_bit k m"
    using concat_bit_eq [of k a m] by (simp add: concat_bit_def)
  also have "\<dots> = m * 2 ^ k + a"
    using assms by (simp add: take_bit_int_eq_self push_bit_eq_mult)
  finally show ?thesis .
qed

lemma js_or_128: "0 \<le> a \<Longrightarrow> a < 64 \<Longrightarrow> js_or a 128 = 128 + a"
  using js_or_high [of a 7 1] by simp

lemma js_or_192: "0 \<le> a \<Longrightarrow> a < 32 \<Longrightarrow> js_or a 192 = 192 + a"
  using js_or_high [of a 6 3] by simp

lemma js_or_224: "0 \<le> a \<Longrightarrow> a < 16 \<Longrightarrow> js_or a 224 = 224 + a"
  using js_or_high [of a 5 7] by simp

lemma js_or_240: "0 \<le> a \<Longrightarrow> a < 8 \<Longrightarrow> js_or a 240 = 240 + a"
  using js_or_high [of a 4 15] by simp

lemma bytes_utf8_2:
  assumes "0 \<le> c" "c < 2048"
  shows "[js_or (js_shr c 6) 192, js_or (js_and c 63) 128] = utf8_2 c"
proof -
  have "js_shr c 6 = c div 64" using assms by (simp add: js_shr_nonneg)
  moreover have "0 \<le> c div 64" "c div 64 < 32" using assms by simp_all
  moreover have "0 \<le> c mod 64" "c mod 64 < 64" by simp_all
  ultimately show ?thesis
    by (simp add: utf8_2_def js_and_63 js_or_192 js_or_128)
qed

lemma bytes_utf8_3:
  assumes "0 \<le> c" "c < 65536"
  shows "[js_or (js_shr c 12) 224, js_or (js_and (js_shr c 6) 63) 128, js_or (js_and c 63) 128]
         = utf8_3 c"
proof -
  have "js_shr c 12 = c div 4096" "js_shr c 6 = c div 64"
    using assms by (simp_all add: js_shr_nonneg)
  moreover have "0 \<le> c div 4096" "c div 4096 < 16" using assms by simp_all
  moreover have "0 \<le> c div 64 mod 64" "c div 64 mod 64 < 64" by simp_all
  moreover have "0 \<le> c mod 64" "c mod 64 < 64" by simp_all
  ultimately show ?thesis
    by (simp add: utf8_3_def js_and_63 js_or_224 js_or_128)
qed

lemma bytes_utf8_4:
  assumes "0 \<le> c" "c < 2097152"
  shows "[js_or (js_shr c 18) 240, js_or (js_and (js_shr c 12) 63) 128,
          js_or (js_and (js_shr c 6) 63) 128, js_or (js_and c 63) 128]
         = utf8_4 c"
proof -
  have "js_shr c 18 = c div 262144" "js_shr c 12 = c div 4096" "js_shr c 6 = c div 64"
    using assms by (simp_all add: js_shr_nonneg)
  moreover have "0 \<le> c div 262144" "c div 262144 < 8" using assms by simp_all
  moreover have "0 \<le> c div 4096 mod 64" "c div 4096 mod 64 < 64" by simp_all
  moreover have "0 \<le> c div 64 mod 64" "c div 64 mod 64 < 64" by simp_all
  moreover have "0 \<le> c mod 64" "c mod 64 < 64" by simp_all
  ultimately show ?thesis
    by (simp add: utf8_4_def js_and_63 js_or_240 js_or_128)
qed

text \<open>One iteration of the loop, by the kind of the unit at the index.\<close>

lemma writeString_loop_end:
  "\<not> i < length value \<Longrightarrow> writeString_loop value i buf = buf"
  by (subst writeString_loop.simps) simp

lemma writeString_loop_ascii:
  "i < length value \<Longrightarrow> value ! i < 128 \<Longrightarrow>
   writeString_loop value i buf = writeString_loop value (Suc i) (buf @ [value ! i])"
  by (subst writeString_loop.simps) (simp add: Let_def)

lemma writeString_loop_two:
  "i < length value \<Longrightarrow> 128 \<le> value ! i \<Longrightarrow> value ! i < 2048 \<Longrightarrow>
   writeString_loop value i buf
     = writeString_loop value (Suc i)
         (buf @ [js_or (js_shr (value ! i) 6) 192, js_or (js_and (value ! i) 63) 128])"
  by (subst writeString_loop.simps) (simp add: Let_def)

lemma writeString_loop_pair:
  "Suc i < length value \<Longrightarrow> is_high_surrogate (value ! i) \<Longrightarrow>
   is_low_surrogate (value ! Suc i) \<Longrightarrow> cp = surrogate_codepoint (value ! i) (value ! Suc i) \<Longrightarrow>
   writeString_loop value i buf
     = writeString_loop value (Suc (Suc i))
         (buf @ [js_or (js_shr cp 18) 240, js_or (js_and (js_shr cp 12) 63) 128,
                 js_or (js_and (js_shr cp 6) 63) 128, js_or (js_and cp 63) 128])"
proof -
  assume a: "Suc i < length value" "is_high_surrogate (value ! i)"
    "is_low_surrogate (value ! Suc i)" "cp = surrogate_codepoint (value ! i) (value ! Suc i)"
  have cp: "(value ! i - 0xd800) * 0x400 + value ! (i + 1) - 0xdc00 + 0x10000 = cp"
    using a(4) by (simp add: surrogate_codepoint_def)
  have r: "\<not> value ! i < 128" "\<not> value ! i < 2048" "value ! i < 65536"
    "value ! i \<ge> 0xd800 \<and> value ! i \<le> 0xdbff \<and> i + 1 < length value"
    "value ! (i + 1) \<ge> 0xdc00 \<and> value ! (i + 1) \<le> 0xdfff" "i < length value"
    using a by (simp_all add: is_high_surrogate_def is_low_surrogate_def)
  show ?thesis
    by (subst writeString_loop.simps) (simp only: r cp Let_def simp_thms if_True if_False Suc_eq_plus1 add.assoc one_add_one)
qed

lemma writeString_loop_dropped:
  "Suc i < length value \<Longrightarrow> is_high_surrogate (value ! i) \<Longrightarrow>
   \<not> is_low_surrogate (value ! Suc i) \<Longrightarrow>
   writeString_loop value i buf = writeString_loop value (Suc i) buf"
proof -
  assume a: "Suc i < length value" "is_high_surrogate (value ! i)"
    "\<not> is_low_surrogate (value ! Suc i)"
  have r: "\<not> value ! i < 128" "\<not> value ! i < 2048" "value ! i < 65536"
    "value ! i \<ge> 0xd800 \<and> value ! i \<le> 0xdbff \<and> i + 1 < length value"
    "\<not> (value ! (i + 1) \<ge> 0xdc00 \<and> value ! (i + 1) \<le> 0xdfff)" "i < length value"
    using a by (simp_all add: is_high_surrogate_def is_low_surrogate_def)
  show ?thesis
    by (subst writeString_loop.simps) (simp only: r Let_def simp_thms if_True if_False Suc_eq_plus1)
qed

lemma writeString_loop_three:
  "i < length value \<Longrightarrow> 2048 \<le> value ! i \<Longrightarrow> value ! i < 65536 \<Longrightarrow>
   \<not> (is_high_surrogate (value ! i) \<and> Suc i < length value) \<Longrightarrow>
   writeString_loop value i buf
     = writeString_loop value (Suc i)
         (buf @ [js_or (js_shr (value ! i) 12) 224, js_or (js_and (js_shr (value ! i) 6) 63) 128,
                 js_or (js_and (value ! i) 63) 128])"
proof -
  assume a: "i < length value" "2048 \<le> value ! i" "value ! i < 65536"
    "\<not> (is_high_surrogate (value ! i) \<and> Suc i < length value)"
  have r: "\<not> value ! i < 128" "\<not> value ! i < 2048" "value ! i < 65536"
    "\<not> (value ! i \<ge> 0xd800 \<and> value ! i \<le> 0xdbff \<and> i + 1 < length value)" "i < length value"
    using a by (simp_all add: is_high_surrogate_def)
  show ?thesis
    by (subst writeString_loop.simps) (simp only: r Let_def simp_thms if_True if_False Suc_eq_plus1)
qed

text \<open>
  The loop, started at an index that is not the low half of a pair, appends the
  contributions of the units from that index on.
\<close>

lemma contribution_unpaired:
  "\<not> (0 < i \<and> is_high_surrogate (value ! (i - 1)) \<and> is_low_surrogate (value ! i)) \<Longrightarrow>
   contribution value i =
     (if value ! i < 128 then [value ! i]
      else if value ! i < 2048 then utf8_2 (value ! i)
      else if is_high_surrogate (value ! i) then
        (if Suc i < length value then
           (if is_low_surrogate (value ! Suc i)
            then utf8_4 (surrogate_codepoint (value ! i) (value ! Suc i))
            else [])
         else utf8_3 (value ! i))
      else if value ! i < 65536 then utf8_3 (value ! i)
      else [])"
  by (auto simp add: contribution_def Let_def)

lemma contribution_paired:
  "is_high_surrogate (value ! i) \<Longrightarrow> is_low_surrogate (value ! Suc i) \<Longrightarrow>
   contribution value (Suc i) = []"
  by (simp add: contribution_def Let_def)

lemma surrogate_codepoint_range:
  "is_high_surrogate h \<Longrightarrow> is_low_surrogate l \<Longrightarrow>
   0x10000 \<le> surrogate_codepoint h l \<and> surrogate_codepoint h l \<le> 0x10ffff"
  by (simp add: surrogate_codepoint_def is_high_surrogate_def is_low_surrogate_def)

lemma writeString_loop_output:
  assumes units: "\<forall>c \<in> set value. 0 \<le> c \<and> c < 65536"
  shows "i \<le> length value \<Longrightarrow>
         \<not> (0 < i \<and> i < length value \<and> is_high_surrogate (value ! (i - 1))
              \<and> is_low_surrogate (value ! i)) \<Longrightarrow>
         writeString_loop value i buf = buf @ concat (map (contribution value) [i..<length value])"
proof (induction "length value - i" arbitrary: i buf rule: less_induct)
  case less
  show ?case
  proof (cases "i < length value")
    case False
    then have "i = length value" using less.prems by simp
    then show ?thesis by (simp add: writeString_loop_end)
  next
    case True
    define c where "c = value ! i"
    have c: "0 \<le> c" "c < 65536"
      using units True by (simp_all add: c_def)
    have upt: "[i..<length value] = i # [Suc i..<length value]"
      using True by (simp add: upt_conv_Cons)
    have "\<not> (0 < i \<and> is_high_surrogate (value ! (i - 1)) \<and> is_low_surrogate (value ! i))"
      using less.prems True by simp
    note contrib = contribution_unpaired [OF this, folded c_def]
    have step: "writeString_loop value (Suc i) b
                  = b @ concat (map (contribution value) [Suc i..<length value])"
      if "\<not> (Suc i < length value \<and> is_high_surrogate c \<and> is_low_surrogate (value ! Suc i))"
      for b
      using less.hyps [of "Suc i" b] True that by (simp add: c_def)
    consider (ascii) "c < 128"
      | (two) "128 \<le> c" "c < 2048"
      | (pair) "2048 \<le> c" "is_high_surrogate c" "Suc i < length value"
          "is_low_surrogate (value ! Suc i)"
      | (dropped) "2048 \<le> c" "is_high_surrogate c" "Suc i < length value"
          "\<not> is_low_surrogate (value ! Suc i)"
      | (last) "2048 \<le> c" "is_high_surrogate c" "\<not> Suc i < length value"
      | (three) "2048 \<le> c" "\<not> is_high_surrogate c"
      by linarith
    then show ?thesis
    proof cases
      case ascii
      then have nh: "\<not> is_high_surrogate c" by (simp add: is_high_surrogate_def)
      have "writeString_loop value i buf = writeString_loop value (Suc i) (buf @ [c])"
        using True ascii unfolding c_def by (rule writeString_loop_ascii)
      moreover have "contribution value i = [c]"
        using ascii by (simp add: contrib)
      ultimately show ?thesis using step [of "buf @ [c]"] nh upt by simp
    next
      case two
      then have nh: "\<not> is_high_surrogate c" by (simp add: is_high_surrogate_def)
      have "writeString_loop value i buf
              = writeString_loop value (Suc i) (buf @ [js_or (js_shr c 6) 192, js_or (js_and c 63) 128])"
        using True two unfolding c_def by (rule writeString_loop_two)
      also have "[js_or (js_shr c 6) 192, js_or (js_and c 63) 128] = utf8_2 c"
        using c two by (intro bytes_utf8_2) simp_all
      finally have "writeString_loop value i buf = writeString_loop value (Suc i) (buf @ utf8_2 c)" .
      moreover have "contribution value i = utf8_2 c"
        using two by (simp add: contrib)
      ultimately show ?thesis using step [of "buf @ utf8_2 c"] nh upt by simp
    next
      case pair
      define cp where "cp = surrogate_codepoint c (value ! Suc i)"
      have cp: "0 \<le> cp" "cp < 2097152"
        using surrogate_codepoint_range [OF pair(2) pair(4)] by (simp_all add: cp_def)
      have "writeString_loop value i buf
              = writeString_loop value (Suc (Suc i))
                  (buf @ [js_or (js_shr cp 18) 240, js_or (js_and (js_shr cp 12) 63) 128,
                          js_or (js_and (js_shr cp 6) 63) 128, js_or (js_and cp 63) 128])"
        using pair(3) pair(2) pair(4) cp_def unfolding c_def by (rule writeString_loop_pair)
      also have "[js_or (js_shr cp 18) 240, js_or (js_and (js_shr cp 12) 63) 128,
                  js_or (js_and (js_shr cp 6) 63) 128, js_or (js_and cp 63) 128] = utf8_4 cp"
        using cp by (rule bytes_utf8_4)
      finally have loop: "writeString_loop value i buf
                     = writeString_loop value (Suc (Suc i)) (buf @ utf8_4 cp)" .
      have ci: "contribution value i = utf8_4 cp"
        using pair by (simp add: contrib cp_def)
      have csi: "contribution value (Suc i) = []"
        using pair(2) pair(4) unfolding c_def by (rule contribution_paired)
      have "\<not> is_high_surrogate (value ! Suc i)"
        using pair(4) by (simp add: is_high_surrogate_def is_low_surrogate_def)
      then have rest: "writeString_loop value (Suc (Suc i)) (buf @ utf8_4 cp)
                   = (buf @ utf8_4 cp) @ concat (map (contribution value) [Suc (Suc i)..<length value])"
        using less.hyps [of "Suc (Suc i)" "buf @ utf8_4 cp"] pair(3) by simp
      have upt2: "[Suc i..<length value] = Suc i # [Suc (Suc i)..<length value]"
        using pair(3) by (simp add: upt_conv_Cons)
      show ?thesis
        by (simp add: loop rest upt upt2 ci csi)
    next
      case dropped
      have "writeString_loop value i buf = writeString_loop value (Suc i) buf"
        using dropped(3) dropped(2) dropped(4) unfolding c_def by (rule writeString_loop_dropped)
      moreover have "contribution value i = []"
        using dropped by (simp add: contrib)
      ultimately show ?thesis using step [of buf] dropped upt by simp
    next
      case last
      have "writeString_loop value i buf
              = writeString_loop value (Suc i)
                  (buf @ [js_or (js_shr c 12) 224, js_or (js_and (js_shr c 6) 63) 128,
                          js_or (js_and c 63) 128])"
        unfolding c_def
      proof (rule writeString_loop_three)
        show "\<not> (is_high_surrogate (value ! i) \<and> Suc i < length value)"
          using last by simp
      qed (use True last c in \<open>simp_all add: c_def\<close>)
      also have "[js_or (js_shr c 12) 224, js_or (js_and (js_shr c 6) 63) 128,
                  js_or (js_and c 63) 128] = utf8_3 c"
        using c by (rule bytes_utf8_3)
      finally have "writeString_loop value i buf = writeString_loop value (Suc i) (buf @ utf8_3 c)" .
      moreover have "contribution value i = utf8_3 c"
        using last by (simp add: contrib)
      ultimately show ?thesis using step [of "buf @ utf8_3 c"] last upt by simp
    next
      case three
      have "writeString_loop value i buf
              = writeString_loop value (Suc i)
                  (buf @ [js_or (js_shr c 12) 224, js_or (js_and (js_shr c 6) 63) 128,
                          js_or (js_and c 63) 128])"
        unfolding c_def
      proof (rule writeString_loop_three)
        show "\<not> (is_high_surrogate (value ! i) \<and> Suc i < length value)"
          using three by (simp add: c_def)
      qed (use True three c in \<open>simp_all add: c_def\<close>)
      also have "[js_or (js_shr c 12) 224, js_or (js_and (js_shr c 6) 63) 128,
                  js_or (js_and c 63) 128] = utf8_3 c"
        using c by (rule bytes_utf8_3)
      finally have "writeString_loop value i buf = writeString_loop value (Suc i) (buf @ utf8_3 c)" .
      moreover have "contribution value i = utf8_3 c"
        using three c by (simp add: contrib)
      ultimately show ?thesis using step [of "buf @ utf8_3 c"] three upt by simp
    qed
  qed
qed

lemma writeString_output:
  assumes "\<forall>c \<in> set value. 0 \<le> c \<and> c < 65536"
  shows "writeString value this
           = (int (length (utf8_output value)), this\<lparr>buffer := buffer this @ utf8_output value\<rparr>)"
  using writeString_loop_output [OF assms, of 0 "buffer this"]
  by (simp add: writeString_def utf8_output_def Let_def)

text \<open>
  C6 (amended). For a string of UTF-16 code units, \<open>writeString\<close> appends the
  contributions of its units in order and returns the number of bytes appended. A high
  surrogate immediately followed by a low surrogate is encoded with it as one four-byte
  sequence of their code point. A high surrogate followed by a unit that is not a low
  surrogate contributes no bytes. A high surrogate that is the last unit of the string is
  encoded on its own as a three-byte sequence.
\<close>

theorem writeString_surrogates:
  assumes "\<forall>c \<in> set value. 0 \<le> c \<and> c < 65536"
  shows "writeString value this
           = (int (length (utf8_output value)), this\<lparr>buffer := buffer this @ utf8_output value\<rparr>)
         \<and> (\<forall>i. Suc i < length value \<and> is_high_surrogate (value ! i)
                  \<and> is_low_surrogate (value ! Suc i) \<longrightarrow>
                contribution value i = utf8_4 (surrogate_codepoint (value ! i) (value ! Suc i))
                \<and> length (contribution value i) = 4
                \<and> contribution value (Suc i) = [])
         \<and> (\<forall>i. Suc i < length value \<and> is_high_surrogate (value ! i)
                  \<and> \<not> is_low_surrogate (value ! Suc i) \<longrightarrow>
                contribution value i = [])
         \<and> (\<forall>i. Suc i = length value \<and> is_high_surrogate (value ! i) \<longrightarrow>
                contribution value i = utf8_3 (value ! i))"
proof -
  have high: "contribution value i =
        (if Suc i < length value then
           (if is_low_surrogate (value ! Suc i)
            then utf8_4 (surrogate_codepoint (value ! i) (value ! Suc i))
            else [])
         else utf8_3 (value ! i))"
    if "is_high_surrogate (value ! i)" for i
  proof -
    have "\<not> is_low_surrogate (value ! i)" "\<not> value ! i < 128" "\<not> value ! i < 2048"
      using that by (simp_all add: is_high_surrogate_def is_low_surrogate_def)
    then show ?thesis
      using that by (simp add: contribution_unpaired)
  qed
  show ?thesis
    using writeString_output [OF assms, of this]
    by (auto simp add: high contribution_paired utf8_4_def)
qed

theorem writeString_surrogates_witness:
  "writeString [0xd83d, 0xde01, 0xd83d, 0x41, 0xd83d] \<lparr>buffer = [7]\<rparr>
     = (8, \<lparr>buffer = [7, 240, 159, 152, 129, 65, 237, 160, 189]\<rparr>)"
proof -
  have out: "utf8_output [0xd83d, 0xde01, 0xd83d, 0x41, 0xd83d]
               = [240, 159, 152, 129, 65, 237, 160, 189]"
    by code_simp
  show ?thesis
    using writeString_surrogates [of "[0xd83d, 0xde01, 0xd83d, 0x41, 0xd83d]" "\<lparr>buffer = [7]\<rparr>"]
    by (simp add: out)
qed

text \<open>
  The claim as stated fails for a high surrogate at the end of the string: it is not
  followed by a low surrogate, and three bytes are written for it.
\<close>

theorem writeString_surrogates_counterexample:
  "is_high_surrogate 0xd83d
   \<and> writeString [0xd83d] \<lparr>buffer = []\<rparr> = (3, \<lparr>buffer = [237, 160, 189]\<rparr>)"
  by code_simp

section \<open>The varint written by writeSplitVarint64\<close>

text \<open>
  The base-128 little-endian encoding of a number: seven bits to a byte, least
  significant group first, every byte but the last with the high bit (128) added.
  \<open>decode_varint\<close> reads the number back from the bytes, and \<open>valid_varint\<close> says
  that a byte sequence has the form of a varint: not empty, the high bit set in every
  byte but the last, and clear in the last.
\<close>

function varint :: "int \<Rightarrow> int list" where
  "varint v = (if v > 127 then (v mod 128 + 128) # varint (v div 128) else [v])"
  by pat_completeness auto
termination
  by (relation "measure nat") auto

declare varint.simps [simp del]

fun decode_varint :: "int list \<Rightarrow> int" where
  "decode_varint [] = 0"
| "decode_varint (b # bs) = b mod 128 + 128 * decode_varint bs"

definition valid_varint :: "int list \<Rightarrow> bool" where
  "valid_varint bs =
     (bs \<noteq> [] \<and> list_all (\<lambda>b. 128 \<le> b \<and> b < 256) (butlast bs)
      \<and> 0 \<le> last bs \<and> last bs < 128)"

lemma js_or_128_byte: "0 \<le> a \<Longrightarrow> a < 128 \<Longrightarrow> js_or a 128 = 128 + a"
  using js_or_high [of a 7 1] by simp

lemma varint_shift_low:
  "toUint32 (js_or (js_ushr lowBits 7) (js_shl highBits 25))
     = take_bit 32 (drop_bit 7 (concat_bit 32 lowBits highBits))"
proof (rule bit_eqI)
  fix n :: nat
  show "bit (toUint32 (js_or (js_ushr lowBits 7) (js_shl highBits 25))) n
          = bit (take_bit 32 (drop_bit 7 (concat_bit 32 lowBits highBits))) n"
  proof -
    consider "n < 25" | "25 \<le> n" "n < 31" | "n = 31" | "32 \<le> n"
      by linarith
    then show ?thesis
      by cases (auto simp add: bit_js bit_simps min_def)
  qed
qed

lemma split_value_concat:
  "0 \<le> lowBits \<Longrightarrow> lowBits < 2 ^ 32 \<Longrightarrow>
   concat_bit 32 lowBits highBits = highBits * 2 ^ 32 + lowBits"
  by (simp add: concat_bit_eq take_bit_int_eq_self push_bit_eq_mult)

text \<open>One step of the loop on the 64-bit value of the pair.\<close>

lemma writeSplitVarint64_step:
  assumes "0 \<le> lowBits" "lowBits < 2 ^ 32" "0 \<le> highBits" "highBits < 2 ^ 32"
  defines "v \<equiv> highBits * 2 ^ 32 + lowBits"
  shows "(highBits > 0 \<or> lowBits > 127) = (v > 127)"
    and "js_or (js_and lowBits 0x7f) 0x80 = v mod 128 + 128"
    and "js_ushr highBits 7 * 2 ^ 32 + js_ushr (js_or (js_ushr lowBits 7) (js_shl highBits 25)) 0
           = v div 128"
    and "0 \<le> js_ushr highBits 7" "js_ushr highBits 7 < 2 ^ 32"
    and "0 \<le> js_ushr (js_or (js_ushr lowBits 7) (js_shl highBits 25)) 0"
    and "js_ushr (js_or (js_ushr lowBits 7) (js_shl highBits 25)) 0 < 2 ^ 32"
proof -
  show "(highBits > 0 \<or> lowBits > 127) = (v > 127)"
    using assms(1-4) unfolding v_def by auto
  have "v mod 128 = lowBits mod 128"
  proof -
    have "v = lowBits + 128 * (highBits * 33554432)" by (simp add: v_def)
    then show ?thesis by (simp only: mod_mult_self2)
  qed
  moreover have "0 \<le> lowBits mod 128" "lowBits mod 128 < 128" by simp_all
  ultimately show "js_or (js_and lowBits 0x7f) 0x80 = v mod 128 + 128"
    by (simp add: js_and_127 take_bit_eq_mod js_or_128_byte)
  have h: "js_ushr highBits 7 = highBits div 128"
    using assms(3,4) by (simp add: js_ushr_def toUint32_def)
  have "js_ushr (js_or (js_ushr lowBits 7) (js_shl highBits 25)) 0 = (v div 128) mod 2 ^ 32"
    using assms(1,2)
    by (simp add: varint_shift_low split_value_concat v_def take_bit_eq_mod drop_bit_eq_div)
  moreover have "highBits div 128 = (v div 128) div 2 ^ 32"
  proof -
    have "(v div 128) div 2 ^ 32 = (v div 2 ^ 32) div 128"
      by (simp add: div_mult2_eq [symmetric] mult.commute)
    moreover have "v div 2 ^ 32 = highBits"
      using assms(1,2) by (simp add: v_def)
    ultimately show ?thesis by simp
  qed
  ultimately show "js_ushr highBits 7 * 2 ^ 32
      + js_ushr (js_or (js_ushr lowBits 7) (js_shl highBits 25)) 0 = v div 128"
    by (simp add: h)
  show "0 \<le> js_ushr highBits 7" "js_ushr highBits 7 < 2 ^ 32"
    using assms(3,4) by (simp_all add: h)
  show "0 \<le> js_ushr (js_or (js_ushr lowBits 7) (js_shl highBits 25)) 0"
    "js_ushr (js_or (js_ushr lowBits 7) (js_shl highBits 25)) 0 < 2 ^ 32"
    by (simp_all add: toUint32_def)
qed

lemma writeSplitVarint64_loop_varint:
  "0 \<le> lowBits \<Longrightarrow> lowBits < 2 ^ 32 \<Longrightarrow> 0 \<le> highBits \<Longrightarrow> highBits < 2 ^ 32 \<Longrightarrow>
   writeSplitVarint64_loop buf lowBits highBits = buf @ varint (highBits * 2 ^ 32 + lowBits)"
proof (induction buf lowBits highBits rule: writeSplitVarint64_loop.induct)
  case (1 buf lowBits highBits)
  note step = writeSplitVarint64_step [OF "1.prems"]
  show ?case
  proof (cases "highBits > 0 \<or> lowBits > 127")
    case True
    then have big: "highBits * 2 ^ 32 + lowBits > 127" using step(1) by simp
    have "writeSplitVarint64_loop buf lowBits highBits
            = writeSplitVarint64_loop (buf @ [js_or (js_and lowBits 0x7f) 0x80])
                (js_ushr (js_or (js_ushr lowBits 7) (js_shl highBits 25)) 0) (js_ushr highBits 7)"
      using True by (subst writeSplitVarint64_loop.simps) simp
    also have "\<dots> = (buf @ [js_or (js_and lowBits 0x7f) 0x80])
                 @ varint (js_ushr highBits 7 * 2 ^ 32
                     + js_ushr (js_or (js_ushr lowBits 7) (js_shl highBits 25)) 0)"
      using True step(4-7) by (intro "1.IH") simp_all
    also have "\<dots> = buf @ ((highBits * 2 ^ 32 + lowBits) mod 128 + 128)
                       # varint ((highBits * 2 ^ 32 + lowBits) div 128)"
      by (simp only: step(2) step(3)) simp
    also have "\<dots> = buf @ varint (highBits * 2 ^ 32 + lowBits)"
      using big by (subst (2) varint.simps) simp
    finally show ?thesis .
  next
    case False
    then have small: "\<not> highBits * 2 ^ 32 + lowBits > 127" using step(1) by simp
    have "highBits = 0" using False "1.prems" by simp
    moreover have "writeSplitVarint64_loop buf lowBits highBits = buf @ [lowBits]"
      using False by (subst writeSplitVarint64_loop.simps) simp
    moreover have "varint (highBits * 2 ^ 32 + lowBits) = [highBits * 2 ^ 32 + lowBits]"
      using small by (subst varint.simps) simp
    ultimately show ?thesis by simp
  qed
qed

text \<open>The encoding has the form of a varint and decodes to its number.\<close>

lemma varint_nonempty: "varint v \<noteq> []"
  by (subst varint.simps) simp

lemma valid_varint_Cons:
  "valid_varint bs \<Longrightarrow> 128 \<le> b \<Longrightarrow> b < 256 \<Longrightarrow> valid_varint (b # bs)"
  by (simp add: valid_varint_def)

lemma valid_varint_varint: "0 \<le> v \<Longrightarrow> valid_varint (varint v)"
proof (induction v rule: varint.induct)
  case (1 v)
  show ?case
  proof (cases "v > 127")
    case True
    then have "valid_varint (varint (v div 128))" using 1 by simp
    moreover have "128 \<le> v mod 128 + 128" "v mod 128 + 128 < 256" by simp_all
    ultimately have "valid_varint ((v mod 128 + 128) # varint (v div 128))"
      by (rule valid_varint_Cons)
    then show ?thesis using True by (subst varint.simps) simp
  next
    case False
    then show ?thesis using 1 by (subst varint.simps) (simp add: valid_varint_def)
  qed
qed

lemma decode_varint_varint: "0 \<le> v \<Longrightarrow> decode_varint (varint v) = v"
proof (induction v rule: varint.induct)
  case (1 v)
  show ?case
  proof (cases "v > 127")
    case True
    then have "decode_varint (varint (v div 128)) = v div 128" using 1 by simp
    then have "decode_varint ((v mod 128 + 128) # varint (v div 128)) = v"
      by simp
    then show ?thesis using True by (subst varint.simps) simp
  next
    case False
    then show ?thesis using 1 by (subst varint.simps) simp
  qed
qed

text \<open>The length is the number of seven-bit groups the number needs.\<close>

lemma length_varint_le: "v < 128 ^ k \<Longrightarrow> 0 < k \<Longrightarrow> length (varint v) \<le> k"
proof (induction v arbitrary: k rule: varint.induct)
  case (1 v)
  show ?case
  proof (cases "v > 127")
    case True
    obtain j where k: "k = Suc j" using "1.prems" by (cases k) simp_all
    have "j \<noteq> 0" using True "1.prems" k by (cases j) simp_all
    moreover have "v div 128 < 128 ^ j"
    proof -
      have "v < 128 * 128 ^ j" using "1.prems" k by simp
      then show ?thesis by linarith
    qed
    ultimately have "length (varint (v div 128)) \<le> j"
      using True by (intro "1.IH") simp_all
    then show ?thesis using True k by (subst varint.simps) simp
  next
    case False
    then show ?thesis using "1.prems" by (subst varint.simps) simp
  qed
qed

lemma varint_ge: "1 < length (varint v) \<Longrightarrow> 128 ^ (length (varint v) - 1) \<le> v"
proof (induction v rule: varint.induct)
  case (1 v)
  show ?case
  proof (cases "v > 127")
    case True
    have len: "length (varint v) = Suc (length (varint (v div 128)))"
      using True by (subst varint.simps) simp
    show ?thesis
    proof (cases "1 < length (varint (v div 128))")
      case False
      then have "length (varint (v div 128)) = 1"
        using varint_nonempty [of "v div 128"] by (cases "varint (v div 128)") simp_all
      then show ?thesis using True len by simp
    next
      case long: True
      then have "128 ^ (length (varint (v div 128)) - 1) \<le> v div 128"
        using True by (intro "1.IH") simp_all
      then have "128 * 128 ^ (length (varint (v div 128)) - 1) \<le> 128 * (v div 128)"
        by simp
      also have "\<dots> \<le> v"
        by linarith
      finally show ?thesis using long len
        by (cases "length (varint (v div 128))") simp_all
    qed
  next
    case False
    then have "length (varint v) = 1" by (subst varint.simps) simp
    then show ?thesis using "1.prems" by simp
  qed
qed

lemma decode_varint_bound:
  "list_all (\<lambda>b. 0 \<le> b) bs \<Longrightarrow> 0 \<le> decode_varint bs \<and> decode_varint bs < 128 ^ length bs"
proof (induction bs)
  case Nil
  then show ?case by simp
next
  case (Cons b bs)
  then have ih: "0 \<le> decode_varint bs" "decode_varint bs < 128 ^ length bs"
    by simp_all
  have m: "0 \<le> b mod 128" "b mod 128 < 128" by simp_all
  have "decode_varint bs + 1 \<le> 128 ^ length bs" using ih by simp
  then have "128 * (decode_varint bs + 1) \<le> 128 * 128 ^ length bs"
    by simp
  then show ?case using ih m by (simp add: algebra_simps)
qed

lemma valid_varint_nonneg: "valid_varint bs \<Longrightarrow> list_all (\<lambda>b. 0 \<le> b) bs"
proof -
  assume v: "valid_varint bs"
  then have "set bs = set (butlast bs @ [last bs])" by (simp add: valid_varint_def)
  then have "set bs = set (butlast bs) \<union> {last bs}" by simp
  then show ?thesis
    using v by (auto simp add: valid_varint_def list_all_iff)
qed

lemma varint_minimal:
  assumes "valid_varint bs" "decode_varint bs = v"
  shows "length (varint v) \<le> length bs"
proof (rule ccontr)
  assume "\<not> length (varint v) \<le> length bs"
  then have less: "length bs < length (varint v)" by simp
  have "bs \<noteq> []" using assms(1) by (simp add: valid_varint_def)
  then have "0 < length bs" by simp
  then have long: "1 < length (varint v)" using less by linarith
  have "v < 128 ^ length bs"
    using decode_varint_bound [OF valid_varint_nonneg [OF assms(1)]] assms(2) by simp
  also have "(128 :: int) ^ length bs \<le> 128 ^ (length (varint v) - 1)"
    using less by (intro power_increasing) simp_all
  also have "\<dots> \<le> v" using long by (rule varint_ge)
  finally show False by simp
qed

text \<open>
  C2. For a split pair with both halves in \<open>[0, 2 ^ 32)\<close>, \<open>writeSplitVarint64\<close>
  appends the varint of the 64-bit value of the pair: between 1 and 10 bytes that decode
  to the value, every byte but the last with the high bit set and the last with the high
  bit clear, and no sequence of the form of a varint that decodes to the value is shorter.
\<close>

theorem writeSplitVarint64_canonical:
  assumes "0 \<le> lowBits" "lowBits < 2 ^ 32" "0 \<le> highBits" "highBits < 2 ^ 32"
  shows "\<exists>out. writeSplitVarint64 lowBits highBits this = Inr (this\<lparr>buffer := buffer this @ out\<rparr>)
           \<and> out = varint (highBits * 2 ^ 32 + lowBits)
           \<and> decode_varint out = highBits * 2 ^ 32 + lowBits
           \<and> 1 \<le> length out \<and> length out \<le> 10
           \<and> list_all (\<lambda>b. 128 \<le> b \<and> b < 256) (butlast out)
           \<and> 0 \<le> last out \<and> last out < 128
           \<and> (\<forall>bs. valid_varint bs \<and> decode_varint bs = highBits * 2 ^ 32 + lowBits
                  \<longrightarrow> length out \<le> length bs)"
proof -
  define v where "v = highBits * 2 ^ 32 + lowBits"
  have v: "0 \<le> v" "v < 128 ^ 10"
    using assms by (simp_all add: v_def)
  have valid: "valid_varint (varint v)" using v(1) by (rule valid_varint_varint)
  have "writeSplitVarint64 lowBits highBits this = Inr (this\<lparr>buffer := buffer this @ varint v\<rparr>)"
    using assms by (simp add: writeSplitVarint64_def TWO_TO_32_def writeSplitVarint64_loop_varint v_def)
  moreover have "decode_varint (varint v) = v" using v(1) by (rule decode_varint_varint)
  moreover have "1 \<le> length (varint v)"
    using varint_nonempty [of v] by (cases "varint v") simp_all
  moreover have "length (varint v) \<le> 10" using v(2) by (rule length_varint_le) simp
  moreover have "\<forall>bs. valid_varint bs \<and> decode_varint bs = v \<longrightarrow> length (varint v) \<le> length bs"
    using varint_minimal by blast
  ultimately show ?thesis
    using valid unfolding v_def [symmetric] valid_varint_def by blast
qed

theorem writeSplitVarint64_canonical_witness:
  "writeSplitVarint64 300 7 \<lparr>buffer = [9]\<rparr>
     = Inr \<lparr>buffer = [9, 172, 130, 128, 128, 112]\<rparr>
   \<and> decode_varint [172, 130, 128, 128, 112] = 30064771372"
proof -
  have out: "varint 30064771372 = [172, 130, 128, 128, 112]"
    by code_simp
  show ?thesis
    using writeSplitVarint64_canonical [of 300 7 "\<lparr>buffer = [9]\<rparr>"]
    by (simp add: out)
qed

section \<open>Decimal formatting of an unsigned 64-bit value\<close>

text \<open>
  \<open>fixed_digits k x\<close> is \<open>x\<close> written with exactly \<open>k\<close> decimal digits, zeros in
  front; \<open>decimal_value\<close> reads a string of decimal digits as a number.
\<close>

fun fixed_digits :: "nat \<Rightarrow> nat \<Rightarrow> string" where
  "fixed_digits 0 x = []"
| "fixed_digits (Suc k) x = fixed_digits k (x div 10) @ [digit_char (x mod 10)]"

definition decimal_value :: "string \<Rightarrow> nat" where
  "decimal_value s = foldl (\<lambda>a c. 10 * a + (of_char c - 48)) 0 s"

declare decimal.simps [simp del]

lemma decimal_small: "n < 10 \<Longrightarrow> decimal n = [digit_char n]"
  by (subst decimal.simps) simp

lemma decimal_large: "10 \<le> n \<Longrightarrow> decimal n = decimal (n div 10) @ [digit_char (n mod 10)]"
  by (subst decimal.simps) simp

lemma digit_char_0: "digit_char 0 = CHR ''0''"
  by (simp add: digit_char_def)

lemma fixed_digits_0: "fixed_digits k 0 = replicate k (CHR ''0'')"
  by (induction k) (simp_all add: digit_char_0 replicate_append_same)

lemma decimal_append_fixed:
  "0 < c \<Longrightarrow> x < 10 ^ k \<Longrightarrow> decimal (c * 10 ^ k + x) = decimal c @ fixed_digits k x"
proof (induction k arbitrary: x)
  case 0
  then show ?case by simp
next
  case (Suc k)
  let ?n = "c * 10 ^ Suc k + x"
  have ck: "1 \<le> c * 10 ^ k" using Suc.prems(1) by simp
  have "?n = 10 * (c * 10 ^ k) + x" by simp
  with ck have big: "10 \<le> ?n" by linarith
  have d: "?n div 10 = c * 10 ^ k + x div 10"
  proof -
    have "?n = x + 10 * (c * 10 ^ k)" by simp
    then have "?n div 10 = (x + 10 * (c * 10 ^ k)) div 10" by simp
    also have "\<dots> = x div 10 + c * 10 ^ k" by (simp only: div_mult_self2)
    finally show ?thesis by simp
  qed
  have m: "?n mod 10 = x mod 10"
  proof -
    have "?n = x + 10 * (c * 10 ^ k)" by simp
    then show ?thesis by (simp only: mod_mult_self2)
  qed
  have "x div 10 < 10 ^ k" using Suc.prems(2) by simp
  then have "decimal (c * 10 ^ k + x div 10) = decimal c @ fixed_digits k (x div 10)"
    using Suc.prems(1) by (intro Suc.IH)
  then show ?case
    using decimal_large [OF big] by (simp only: d m fixed_digits.simps append_assoc)
qed

lemma fixed_digits_decimal:
  "0 < x \<Longrightarrow> x < 10 ^ k \<Longrightarrow>
   length (decimal x) \<le> k
   \<and> fixed_digits k x = replicate (k - length (decimal x)) (CHR ''0'') @ decimal x"
proof (induction k arbitrary: x)
  case 0
  then show ?case by simp
next
  case (Suc k)
  show ?case
  proof (cases "x < 10")
    case True
    then have "x div 10 = 0" "x mod 10 = x" by simp_all
    then show ?thesis
      using True by (simp add: decimal_small fixed_digits_0)
  next
    case False
    then have pos: "0 < x div 10" by simp
    have "x div 10 < 10 ^ k" using Suc.prems(2) by simp
    then have ih: "length (decimal (x div 10)) \<le> k"
      "fixed_digits k (x div 10)
         = replicate (k - length (decimal (x div 10))) (CHR ''0'') @ decimal (x div 10)"
      using Suc.IH [OF pos] by simp_all
    have "decimal x = decimal (x div 10) @ [digit_char (x mod 10)]"
      using False by (simp add: decimal_large)
    then show ?thesis using ih by simp
  qed
qed

text \<open>A group of seven digits as \<open>decimalFrom1e7\<close> pads it.\<close>

lemma decimalFrom1e7_padded:
  assumes "0 \<le> d" "d < 10000000" "z \<noteq> 0"
  shows "decimalFrom1e7 d z = fixed_digits 7 (nat d)"
proof (cases "d = 0")
  case True
  have "fixed_digits 7 0 = ''0000000''"
    by code_simp
  then show ?thesis
    using True assms(3) by (simp add: decimalFrom1e7_def)
next
  case False
  then have "0 < nat d" "nat d < 10 ^ 7" using assms by simp_all
  then have f: "length (decimal (nat d)) \<le> 7"
    "fixed_digits 7 (nat d) = replicate (7 - length (decimal (nat d))) (CHR ''0'') @ decimal (nat d)"
    using fixed_digits_decimal [of "nat d" 7] by simp_all
  have "''0000000'' = replicate 7 (CHR ''0'')"
    by code_simp
  then have "drop (length (decimal (nat d))) ''0000000''
               = replicate (7 - length (decimal (nat d))) (CHR ''0'')"
    by (simp only: drop_replicate)
  then show ?thesis
    using False assms f by (simp add: decimalFrom1e7_def numberToString_def Let_def)
qed

lemma decimalFrom1e7_leading:
  "0 < d \<Longrightarrow> decimalFrom1e7 d 0 = decimal (nat d)"
  by (simp add: decimalFrom1e7_def numberToString_def)

text \<open>The three words of 24, 24 and 16 bits.\<close>

lemma word_low: "js_and bitsLow 0xffffff = bitsLow mod 2 ^ 24"
  using js_and_mask [of 24 bitsLow] by (simp add: mask_eq_exp_minus_1 take_bit_eq_mod)

lemma word_mid:
  "js_and (js_ushr (js_or (js_ushr bitsLow 24) (js_shl bitsHigh 8)) 0) 0xffffff
     = take_bit 24 (drop_bit 24 (concat_bit 32 bitsLow bitsHigh))"
proof -
  have "js_and (js_ushr (js_or (js_ushr bitsLow 24) (js_shl bitsHigh 8)) 0) 0xffffff
          = take_bit 24 (toUint32 (js_or (js_ushr bitsLow 24) (js_shl bitsHigh 8)))"
    using js_and_mask [of 24 "toUint32 (js_or (js_ushr bitsLow 24) (js_shl bitsHigh 8))"]
    by (simp add: mask_eq_exp_minus_1)
  also have "\<dots> = take_bit 24 (drop_bit 24 (concat_bit 32 bitsLow bitsHigh))"
  proof (rule bit_eqI)
    fix n :: nat
    consider "n < 8" | "8 \<le> n" "n < 24" | "24 \<le> n"
      by linarith
    then show "bit (take_bit 24 (toUint32 (js_or (js_ushr bitsLow 24) (js_shl bitsHigh 8)))) n
                 = bit (take_bit 24 (drop_bit 24 (concat_bit 32 bitsLow bitsHigh))) n"
      by cases (auto simp add: bit_js bit_simps min_def)
  qed
  finally show ?thesis .
qed

lemma word_high: "js_and (js_shr bitsHigh 16) 0xffff = take_bit 16 (drop_bit 16 bitsHigh)"
proof -
  have "js_and (js_shr bitsHigh 16) 0xffff = take_bit 16 (js_shr bitsHigh 16)"
    using js_and_mask [of 16 "js_shr bitsHigh 16"] by (simp add: mask_eq_exp_minus_1)
  also have "\<dots> = take_bit 16 (drop_bit 16 bitsHigh)"
  proof (rule bit_eqI)
    fix n :: nat
    show "bit (take_bit 16 (js_shr bitsHigh 16)) n = bit (take_bit 16 (drop_bit 16 bitsHigh)) n"
    proof -
      consider "n < 15" | "n = 15" | "16 \<le> n" by linarith
      then show ?thesis
        by cases (auto simp add: bit_js bit_simps min_def)
    qed
  qed
  finally show ?thesis .
qed

text \<open>The carries: below the base the quotient is 0 and the remainder the number.\<close>

lemma carry_quotient:
  "0 \<le> (a :: int) \<Longrightarrow> (if a \<ge> 10000000 then x + a div 10000000 else x) = x + a div 10000000"
  by simp

lemma carry_remainder:
  "0 \<le> (a :: int) \<Longrightarrow> (if a \<ge> 10000000 then a mod 10000000 else a) = a mod 10000000"
  by simp

lemma three_words:
  assumes "0 \<le> bitsLow" "bitsLow < 2 ^ 32" "0 \<le> bitsHigh" "bitsHigh < 2 ^ 32"
  defines "v \<equiv> bitsHigh * 2 ^ 32 + bitsLow"
  shows "js_and bitsLow 0xffffff = v mod 2 ^ 24"
    and "js_and (js_ushr (js_or (js_ushr bitsLow 24) (js_shl bitsHigh 8)) 0) 0xffffff
           = v div 2 ^ 24 mod 2 ^ 24"
    and "js_and (js_shr bitsHigh 16) 0xffff = v div 2 ^ 48"
proof -
  have "v = bitsLow + 2 ^ 24 * (bitsHigh * 2 ^ 8)" by (simp add: v_def)
  then have "v mod 2 ^ 24 = bitsLow mod 2 ^ 24" by (simp only: mod_mult_self2)
  then show "js_and bitsLow 0xffffff = v mod 2 ^ 24" by (simp add: word_low)
  show "js_and (js_ushr (js_or (js_ushr bitsLow 24) (js_shl bitsHigh 8)) 0) 0xffffff
           = v div 2 ^ 24 mod 2 ^ 24"
    using assms(1,2)
    by (simp only: word_mid) (simp add: split_value_concat v_def take_bit_eq_mod drop_bit_eq_div)
  have "v div 2 ^ 32 = bitsHigh" using assms(1,2) by (simp add: v_def)
  moreover have "v div 2 ^ 48 = v div 2 ^ 32 div 2 ^ 16"
    by (simp add: div_mult2_eq [symmetric])
  moreover have "bitsHigh div 2 ^ 16 mod 2 ^ 16 = bitsHigh div 2 ^ 16"
    using assms(3,4) by (intro mod_pos_pos_trivial) simp_all
  ultimately show "js_and (js_shr bitsHigh 16) 0xffff = v div 2 ^ 48"
    by (simp add: word_high take_bit_eq_mod drop_bit_eq_div)
qed

lemma three_words_sum:
  "(v :: int) = v mod 2 ^ 24 + (v div 2 ^ 24 mod 2 ^ 24) * 2 ^ 24 + (v div 2 ^ 48) * 2 ^ 48"
proof -
  define r0 where "r0 = v mod 16777216"
  define q1 where "q1 = v div 16777216"
  define r1 where "r1 = q1 mod 16777216"
  define q2 where "q2 = q1 div 16777216"
  have a: "v = r0 + 16777216 * q1"
    unfolding r0_def q1_def by simp
  have b: "q1 = r1 + 16777216 * q2"
    unfolding r1_def q2_def by simp
  have "q2 = v div (16777216 * 16777216)"
    unfolding q2_def q1_def by (rule zdiv_zmult2_eq [symmetric]) simp
  then have c: "q2 = v div 281474976710656" by simp
  have "v = r0 + r1 * 16777216 + q2 * 281474976710656"
    using a b by linarith
  then show ?thesis
    unfolding c r0_def r1_def q1_def by simp
qed

text \<open>The slow path: three base-\<open>10 ^ 7\<close> digits of the value, the first not zero.\<close>

lemma joinUnsignedDecimalString_slow:
  assumes r: "0 \<le> bitsLow" "bitsLow < 2 ^ 32" "bitsHigh < 2 ^ 32"
    and big: "0x1fffff < bitsHigh"
  shows "joinUnsignedDecimalString bitsLow bitsHigh = decimal (nat (bitsHigh * 2 ^ 32 + bitsLow))"
proof -
  define v where "v = bitsHigh * 2 ^ 32 + bitsLow"
  define low where "low = v mod 2 ^ 24"
  define mid where "mid = v div 2 ^ 24 mod 2 ^ 24"
  define high where "high = v div 2 ^ 48"
  define A where "A = low + mid * 6777216 + high * 6710656"
  define B where "B = mid + high * 8147497"
  define C where "C = high * 2"
  define B1 where "B1 = B + A div 10000000"
  define A1 where "A1 = A mod 10000000"
  define C1 where "C1 = C + B1 div 10000000"
  define B2 where "B2 = B1 mod 10000000"
  have hpos: "0 \<le> bitsHigh" using big by simp
  have v: "0 \<le> v" "9007199254740992 \<le> v"
    using r hpos big by (simp_all add: v_def)
  have words:
    "js_and bitsLow 0xffffff = low"
    "js_and (js_ushr (js_or (js_ushr bitsLow 24) (js_shl bitsHigh 8)) 0) 0xffffff = mid"
    "js_and (js_shr bitsHigh 16) 0xffff = high"
    using three_words [OF r(1) r(2) hpos r(3)] by (simp_all only: low_def mid_def high_def v_def)
  have nonneg: "0 \<le> low" "0 \<le> mid" "32 \<le> high"
    using v by (simp_all add: low_def mid_def high_def)
  have sum: "v = low + mid * 16777216 + high * 281474976710656"
    using three_words_sum [of v] by (simp add: low_def mid_def high_def)
  have A: "0 \<le> A" using nonneg by (simp add: A_def)
  have "0 \<le> B" using nonneg by (simp add: B_def)
  moreover have "0 \<le> A div 10000000" using A by simp
  ultimately have B1: "0 \<le> B1" by (simp add: B1_def)
  have "0 < C" using nonneg by (simp add: C_def)
  moreover have "0 \<le> B1 div 10000000" using B1 by simp
  ultimately have C1: "0 < C1" by (simp add: C1_def)
  have A1: "0 \<le> A1" "A1 < 10000000" by (simp_all add: A1_def)
  have B2: "0 \<le> B2" "B2 < 10000000" by (simp_all add: B2_def)
  have digits: "v = (C1 * 10000000 + B2) * 10000000 + A1"
  proof -
    define qa where "qa = A div 10000000"
    define qb where "qb = B1 div 10000000"
    have a: "low + mid * 6777216 + high * 6710656 = A1 + 10000000 * qa"
      unfolding A1_def qa_def A_def [symmetric] by simp
    have b: "mid + high * 8147497 + qa = B2 + 10000000 * qb"
      unfolding B2_def qb_def qa_def B_def [symmetric] B1_def [symmetric] by simp
    have c: "C1 = high * 2 + qb"
      by (simp add: C1_def C_def qb_def)
    have "(C1 * 10000000 + B2) * 10000000 + A1 = C1 * 100000000000000 + B2 * 10000000 + A1"
      by (simp add: algebra_simps)
    also have "\<dots> = low + mid * 16777216 + high * 281474976710656"
      using a b c by linarith
    finally show ?thesis using sum by simp
  qed
  have "joinUnsignedDecimalString bitsLow bitsHigh =
      decimalFrom1e7
        (if (if A \<ge> 10000000 then B + A div 10000000 else B) \<ge> 10000000
         then C + (if A \<ge> 10000000 then B + A div 10000000 else B) div 10000000 else C) 0
      @ decimalFrom1e7
          (if (if A \<ge> 10000000 then B + A div 10000000 else B) \<ge> 10000000
           then (if A \<ge> 10000000 then B + A div 10000000 else B) mod 10000000
           else (if A \<ge> 10000000 then B + A div 10000000 else B))
          (if (if A \<ge> 10000000 then B + A div 10000000 else B) \<ge> 10000000
           then C + (if A \<ge> 10000000 then B + A div 10000000 else B) div 10000000 else C)
      @ decimalFrom1e7 (if A \<ge> 10000000 then A mod 10000000 else A) 1"
    using big unfolding joinUnsignedDecimalString_def words Let_def A_def B_def C_def
    by simp
  also have "\<dots> = decimalFrom1e7 C1 0 @ decimalFrom1e7 B2 C1 @ decimalFrom1e7 A1 1"
  proof -
    have e1: "(if A \<ge> 10000000 then B + A div 10000000 else B) = B1"
      using carry_quotient [OF A, of B] by (simp add: B1_def)
    have e2: "(if A \<ge> 10000000 then A mod 10000000 else A) = A1"
      using carry_remainder [OF A] by (simp add: A1_def)
    have e3: "(if B1 \<ge> 10000000 then C + B1 div 10000000 else C) = C1"
      using carry_quotient [OF B1, of C] by (simp add: C1_def)
    have e4: "(if B1 \<ge> 10000000 then B1 mod 10000000 else B1) = B2"
      using carry_remainder [OF B1] by (simp add: B2_def)
    show ?thesis by (simp only: e1 e2 e3 e4)
  qed
  also have "\<dots> = decimal (nat C1) @ fixed_digits 7 (nat B2) @ fixed_digits 7 (nat A1)"
    using C1 A1 B2 by (simp add: decimalFrom1e7_leading decimalFrom1e7_padded)
  also have "\<dots> = decimal (nat C1 * 10 ^ 7 + nat B2) @ fixed_digits 7 (nat A1)"
    using decimal_append_fixed [of "nat C1" "nat B2" 7] C1 B2 by simp
  also have "\<dots> = decimal ((nat C1 * 10 ^ 7 + nat B2) * 10 ^ 7 + nat A1)"
    using decimal_append_fixed [of "nat C1 * 10 ^ 7 + nat B2" "nat A1" 7] C1 A1 by simp
  also have "(nat C1 * 10 ^ 7 + nat B2) * 10 ^ 7 + nat A1 = nat v"
  proof -
    have "int ((nat C1 * 10 ^ 7 + nat B2) * 10 ^ 7 + nat A1) = v"
      using C1 A1 B2 by (simp add: digits)
    then show ?thesis by linarith
  qed
  finally show ?thesis by (simp add: v_def)
qed

text \<open>
  The numbers the function computes with stay below \<open>2 ^ 53\<close>, where the arithmetic of
  doubles is that of the integers.
\<close>

lemma joinUnsignedDecimalString_exact:
  assumes "0 \<le> bitsLow" "bitsLow < 2 ^ 32" "0 \<le> bitsHigh" "bitsHigh < 2 ^ 32"
  defines "low \<equiv> js_and bitsLow 0xffffff"
    and "mid \<equiv> js_and (js_ushr (js_or (js_ushr bitsLow 24) (js_shl bitsHigh 8)) 0) 0xffffff"
    and "high \<equiv> js_and (js_shr bitsHigh 16) 0xffff"
  shows "bitsHigh \<le> 0x1fffff \<Longrightarrow> TWO_TO_32 * bitsHigh + bitsLow < 2 ^ 53"
    and "0 \<le> low + mid * 6777216 + high * 6710656"
    and "low + mid * 6777216 + high * 6710656 < 2 ^ 53"
    and "mid + high * 8147497 + (low + mid * 6777216 + high * 6710656) div 10000000 < 2 ^ 53"
proof -
  define v where "v = bitsHigh * 2 ^ 32 + bitsLow"
  have v: "0 \<le> v" "v < 2 ^ 64" using assms(1-4) by (simp_all add: v_def)
  have l: "0 \<le> low" "low < 16777216"
    using three_words(1) [OF assms(1-4)] by (simp_all add: low_def)
  have m: "0 \<le> mid" "mid < 16777216"
    using three_words(2) [OF assms(1-4)] by (simp_all add: mid_def)
  have "high = v div 2 ^ 48"
    using three_words(3) [OF assms(1-4)] by (simp add: high_def v_def)
  then have h: "0 \<le> high" "high < 65536"
    using v by simp_all
  show "bitsHigh \<le> 0x1fffff \<Longrightarrow> TWO_TO_32 * bitsHigh + bitsLow < 2 ^ 53"
    using assms(2) by (simp add: TWO_TO_32_def)
  show "0 \<le> low + mid * 6777216 + high * 6710656"
    using l m h by simp
  have a: "low + mid * 6777216 + high * 6710656 < 114142609551616"
    using l m h by simp
  then show "low + mid * 6777216 + high * 6710656 < 2 ^ 53"
    by simp
  have "(low + mid * 6777216 + high * 6710656) div 10000000 < 114142609551616"
    using a l m h by linarith
  then show "mid + high * 8147497 + (low + mid * 6777216 + high * 6710656) div 10000000 < 2 ^ 53"
    using m h by simp
qed

text \<open>The decimal string of a number: digits only, no zero in front, and it reads back.\<close>

lemma digit_cases: "d < 10 \<Longrightarrow> d \<in> {0, 1, 2, 3, 4, 5, 6, 7, 8, 9 :: nat}"
  by auto

lemma digit_char_props:
  assumes "d < 10"
  shows "of_char (digit_char d) = 48 + d"
    and "digit_char d \<in> set ''0123456789''"
    and "digit_char d = CHR ''0'' \<longleftrightarrow> d = 0"
  using digit_cases [OF assms] by (auto simp add: digit_char_def)

lemma decimal_value_snoc:
  "decimal_value (s @ [c]) = 10 * decimal_value s + (of_char c - 48)"
  by (simp add: decimal_value_def)

lemma decimal_value_decimal: "decimal_value (decimal n) = n"
proof (induction n rule: decimal.induct)
  case (1 n)
  show ?case
  proof (cases "n < 10")
    case True
    then show ?thesis
      by (simp add: decimal_small decimal_value_def digit_char_props(1))
  next
    case False
    then have "decimal_value (decimal (n div 10)) = n div 10" using 1 by simp
    moreover have "of_char (digit_char (n mod 10)) = 48 + n mod 10"
      by (rule digit_char_props(1)) simp
    ultimately show ?thesis
      using False by (simp add: decimal_large decimal_value_snoc)
  qed
qed

lemma decimal_digits: "list_all (\<lambda>c. c \<in> set ''0123456789'') (decimal n)"
proof (induction n rule: decimal.induct)
  case (1 n)
  show ?case
  proof (cases "n < 10")
    case True
    then show ?thesis
      using digit_char_props(2) [of n] by (simp add: decimal_small)
  next
    case False
    moreover have "digit_char (n mod 10) \<in> set ''0123456789''"
      by (rule digit_char_props(2)) simp
    ultimately show ?thesis
      using 1 by (simp add: decimal_large)
  qed
qed

lemma decimal_nonempty: "decimal n \<noteq> []"
  by (cases "n < 10") (simp_all add: decimal_small decimal_large)

lemma decimal_no_leading_zero: "hd (decimal n) = CHR ''0'' \<Longrightarrow> n = 0"
proof (induction n rule: decimal.induct)
  case (1 n)
  show ?case
  proof (cases "n < 10")
    case True
    then show ?thesis
      using "1.prems" digit_char_props(3) [of n] by (simp add: decimal_small)
  next
    case False
    then have "hd (decimal n) = hd (decimal (n div 10))"
      using decimal_nonempty [of "n div 10"] by (simp add: decimal_large)
    then have "n div 10 = 0" using 1 False by simp
    then show ?thesis using False by simp
  qed
qed

text \<open>
  C3. For halves in \<open>[0, 2 ^ 32)\<close>, \<open>joinUnsignedDecimalString\<close> returns the decimal
  string of \<open>hi * 2 ^ 32 + lo\<close>, on the fast path and on the path through three
  base-\<open>10 ^ 7\<close> digits: a string of decimal digits whose value is the number, not empty
  and with a zero in front only when the number is 0.
\<close>

theorem joinUnsignedDecimalString_lossless:
  assumes "0 \<le> bitsLow" "bitsLow < 2 ^ 32" "0 \<le> bitsHigh" "bitsHigh < 2 ^ 32"
  shows "joinUnsignedDecimalString bitsLow bitsHigh = decimal (nat (bitsHigh * 2 ^ 32 + bitsLow))
         \<and> int (decimal_value (joinUnsignedDecimalString bitsLow bitsHigh))
             = bitsHigh * 2 ^ 32 + bitsLow
         \<and> list_all (\<lambda>c. c \<in> set ''0123456789'') (joinUnsignedDecimalString bitsLow bitsHigh)
         \<and> joinUnsignedDecimalString bitsLow bitsHigh \<noteq> []
         \<and> (hd (joinUnsignedDecimalString bitsLow bitsHigh) = CHR ''0''
              \<longrightarrow> bitsHigh * 2 ^ 32 + bitsLow = 0)"
proof -
  have v: "0 \<le> bitsHigh * 2 ^ 32 + bitsLow" using assms by simp
  have eq: "joinUnsignedDecimalString bitsLow bitsHigh
              = decimal (nat (bitsHigh * 2 ^ 32 + bitsLow))"
  proof (cases "bitsHigh \<le> 0x1fffff")
    case True
    then show ?thesis
      using v by (simp add: joinUnsignedDecimalString_def numberToString_def TWO_TO_32_def
          mult.commute)
  next
    case False
    then show ?thesis
      using assms by (intro joinUnsignedDecimalString_slow) simp_all
  qed
  have lead: "hd (decimal (nat (bitsHigh * 2 ^ 32 + bitsLow))) = CHR ''0''
          \<longrightarrow> bitsHigh * 2 ^ 32 + bitsLow = 0"
    using decimal_no_leading_zero [of "nat (bitsHigh * 2 ^ 32 + bitsLow)"] v by auto
  have val: "int (decimal_value (decimal (nat (bitsHigh * 2 ^ 32 + bitsLow))))
               = bitsHigh * 2 ^ 32 + bitsLow"
    using v by (simp only: decimal_value_decimal)
  show ?thesis
    unfolding eq
    by (intro conjI refl val decimal_digits decimal_nonempty lead)
qed

theorem joinUnsignedDecimalString_lossless_witness:
  "joinUnsignedDecimalString 4294967295 4294967295 = ''18446744073709551615''
   \<and> joinUnsignedDecimalString 7 0 = ''7''"
proof -
  have "decimal 18446744073709551615 = ''18446744073709551615''"
    by (simp add: decimal.simps digit_char_def)
  moreover have "decimal 7 = ''7''"
    by (simp add: decimal.simps digit_char_def)
  ultimately show ?thesis
    using joinUnsignedDecimalString_lossless [of 4294967295 4294967295]
      joinUnsignedDecimalString_lossless [of 7 0]
    by simp
qed

section \<open>UInt64 division\<close>

text \<open>
  On operands whose halves are unsigned 32-bit numbers, each operation of \<open>UInt64\<close> is
  the operation on the 64-bit value, modulo \<open>2 ^ 64\<close> where it can overflow.
\<close>

lemma toUint32_idem [simp]: "toUint32 (toUint32 x) = toUint32 x"
  by (simp add: toUint32_def)

lemma UInt64_valid_toUint32 [simp]: "UInt64_valid \<lparr>lo = toUint32 a, hi = toUint32 b\<rparr>"
  by (simp add: UInt64_valid_def toUint32_def)

lemma UInt64_value_range:
  "UInt64_valid x \<Longrightarrow> 0 \<le> UInt64_value x \<and> UInt64_value x < 2 ^ 64"
  by (simp add: UInt64_valid_def UInt64_value_def)

lemma UInt64_value_concat:
  "UInt64_valid x \<Longrightarrow> UInt64_value x = concat_bit 32 (lo x) (hi x)"
  by (simp add: UInt64_valid_def UInt64_value_def split_value_concat)

lemma UInt64_value_inject:
  "UInt64_valid x \<Longrightarrow> UInt64_valid y \<Longrightarrow> UInt64_value x = UInt64_value y \<Longrightarrow>
   lo x = lo y \<and> hi x = hi y"
proof -
  assume a: "UInt64_valid x" "UInt64_valid y" "UInt64_value x = UInt64_value y"
  have "UInt64_value x mod 2 ^ 32 = lo x" "UInt64_value x div 2 ^ 32 = hi x"
    using a(1) by (simp_all add: UInt64_valid_def UInt64_value_def)
  moreover have "UInt64_value y mod 2 ^ 32 = lo y" "UInt64_value y div 2 ^ 32 = hi y"
    using a(2) by (simp_all add: UInt64_valid_def UInt64_value_def)
  ultimately show ?thesis using a(3) by simp
qed

lemma bit_double_int: "bit (2 * y :: int) n = (n \<noteq> 0 \<and> bit y (n - 1))"
  using bit_double_iff [of y n] by auto

lemma bit_2147483648: "bit (2147483648 :: int) k = (k = 31)"
proof -
  have "bit ((2 :: int) ^ 31) k = (k = 31)"
    unfolding bit_exp_iff by simp
  then show ?thesis by simp
qed

lemma UInt64_leftShift_valid [simp]: "UInt64_valid (UInt64_leftShift x)"
  by (simp add: UInt64_leftShift_def Let_def)

lemma UInt64_leftShift_value:
  "UInt64_valid x \<Longrightarrow> UInt64_value (UInt64_leftShift x) = (2 * UInt64_value x) mod 2 ^ 64"
proof -
  assume v: "UInt64_valid x"
  have "concat_bit 32 (toUint32 (js_shl (lo x) 1))
          (toUint32 (js_or (js_shl (hi x) 1) (js_ushr (lo x) 31)))
        = take_bit 64 (2 * concat_bit 32 (lo x) (hi x))"
  proof (rule bit_eqI)
    fix n :: nat
    have "n = 0 \<or> (\<exists>m. n = Suc m \<and> m < 30) \<or> n = 31 \<or> n = 32
            \<or> (\<exists>m. n = 33 + m \<and> m < 30) \<or> n = 63 \<or> 64 \<le> n"
      by presburger
    then consider "n = 0" | m where "n = Suc m" "m < 30" | "n = 31" | "n = 32"
      | m where "n = 33 + m" "m < 30" | "n = 63" | "64 \<le> n"
      by blast
    then show "bit (concat_bit 32 (toUint32 (js_shl (lo x) 1))
                 (toUint32 (js_or (js_shl (hi x) 1) (js_ushr (lo x) 31)))) n
               = bit (take_bit 64 (2 * concat_bit 32 (lo x) (hi x))) n"
      by cases (auto simp add: bit_js bit_double_int bit_take_bit_iff bit_concat_bit_iff min_def)
  qed
  moreover have "UInt64_value (UInt64_leftShift x)
      = concat_bit 32 (toUint32 (js_shl (lo x) 1))
          (toUint32 (js_or (js_shl (hi x) 1) (js_ushr (lo x) 31)))"
    using UInt64_value_concat [OF UInt64_leftShift_valid, of x]
    by (simp add: UInt64_leftShift_def Let_def)
  ultimately show ?thesis
    using v by (simp add: UInt64_value_concat take_bit_eq_mod)
qed

lemma UInt64_rightShift_valid [simp]: "UInt64_valid (UInt64_rightShift x)"
  by (simp add: UInt64_rightShift_def Let_def)

lemma UInt64_rightShift_value:
  "UInt64_valid x \<Longrightarrow> UInt64_value (UInt64_rightShift x) = UInt64_value x div 2"
proof -
  assume v: "UInt64_valid x"
  have "concat_bit 32 (toUint32 (js_or (js_ushr (lo x) 1) (js_shl (js_and (hi x) 1) 31)))
          (toUint32 (js_ushr (hi x) 1))
        = drop_bit 1 (concat_bit 32 (lo x) (take_bit 32 (hi x)))"
  proof (rule bit_eqI)
    fix n :: nat
    have "n < 31 \<or> n = 31 \<or> (\<exists>m. n = 32 + m \<and> m < 31) \<or> 63 \<le> n"
      by presburger
    then consider "n < 31" | "n = 31" | m where "n = 32 + m" "m < 31" | "63 \<le> n"
      by blast
    then show "bit (concat_bit 32 (toUint32 (js_or (js_ushr (lo x) 1) (js_shl (js_and (hi x) 1) 31)))
                 (toUint32 (js_ushr (hi x) 1))) n
               = bit (drop_bit 1 (concat_bit 32 (lo x) (take_bit 32 (hi x)))) n"
      by cases (auto simp add: bit_js bit_simps min_def)
  qed
  moreover have "take_bit 32 (hi x) = hi x"
    using v by (simp add: UInt64_valid_def take_bit_int_eq_self)
  moreover have "UInt64_value (UInt64_rightShift x)
      = concat_bit 32 (toUint32 (js_or (js_ushr (lo x) 1) (js_shl (js_and (hi x) 1) 31)))
          (toUint32 (js_ushr (hi x) 1))"
    using UInt64_value_concat [OF UInt64_rightShift_valid, of x]
    by (simp add: UInt64_rightShift_def Let_def)
  ultimately show ?thesis
    using v by (simp add: UInt64_value_concat drop_bit_eq_div)
qed

lemma UInt64_msb_value:
  "UInt64_valid x \<Longrightarrow> UInt64_msb x = (2 ^ 63 \<le> UInt64_value x)"
proof -
  assume v: "UInt64_valid x"
  have "(js_and (hi x) 0x80000000 = 0) = (\<not> bit (hi x) 31)"
  proof
    assume "js_and (hi x) 0x80000000 = 0"
    then have "\<not> bit (js_and (hi x) 0x80000000) 31" by simp
    then show "\<not> bit (hi x) 31"
      by (simp add: bit_js bit_2147483648)
  next
    assume n: "\<not> bit (hi x) 31"
    show "js_and (hi x) 0x80000000 = 0"
    proof (rule bit_eqI)
      fix k :: nat
      show "bit (js_and (hi x) 0x80000000) k = bit (0 :: int) k"
        using n by (auto simp add: bit_js bit_2147483648 min_def)
    qed
  qed
  moreover have "bit (hi x) 31 = (2 ^ 31 \<le> hi x)"
  proof (cases "hi x < 2 ^ 31")
    case True
    then have "hi x div 2 ^ 31 = 0" using v by (simp add: UInt64_valid_def)
    then show ?thesis using True by (simp add: bit_iff_odd)
  next
    case False
    have "hi x div 2147483648 = 1"
      using v False by (simp add: UInt64_valid_def) linarith
    then show ?thesis using False by (simp add: bit_iff_odd)
  qed
  moreover have "(2 ^ 31 \<le> hi x) = (2 ^ 63 \<le> UInt64_value x)"
    using v by (auto simp add: UInt64_valid_def UInt64_value_def)
  ultimately show ?thesis by (simp add: UInt64_msb_def)
qed

lemma UInt64_zero_value: "UInt64_valid x \<Longrightarrow> UInt64_zero x = (UInt64_value x = 0)"
  by (auto simp add: UInt64_valid_def UInt64_zero_def UInt64_value_def)

lemma UInt64_cmp_value:
  "UInt64_valid x \<Longrightarrow> UInt64_valid y \<Longrightarrow>
   (UInt64_cmp x y \<le> 0) = (UInt64_value x \<le> UInt64_value y)"
  by (auto simp add: UInt64_valid_def UInt64_cmp_def UInt64_value_def)

lemma js_and_all_ones: "js_and a 0xffffffff = toInt32 a"
proof -
  have "toInt32 4294967295 = - 1" by (simp add: toInt32_def)
  then show ?thesis by (simp add: js_and_def)
qed

lemma join_mod_64:
  "0 \<le> r \<Longrightarrow> r < 2 ^ 32 \<Longrightarrow> (h * 2 ^ 32 + r) mod 2 ^ 64 = (h mod 2 ^ 32) * 2 ^ 32 + (r :: int)"
proof -
  assume r: "0 \<le> r" "r < 2 ^ 32"
  have "(h * 2 ^ 32 + r) mod (2 ^ 32 * 2 ^ 32)
          = 2 ^ 32 * ((h * 2 ^ 32 + r) div 2 ^ 32 mod 2 ^ 32) + (h * 2 ^ 32 + r) mod 2 ^ 32"
    by (rule zmod_zmult2_eq) simp
  moreover have "(h * 2 ^ 32 + r) div 2 ^ 32 = h" using r by simp
  moreover have "(h * 2 ^ 32 + r) mod 2 ^ 32 = r" using r by simp
  ultimately show ?thesis by simp
qed

lemma UInt64_add_valid [simp]: "UInt64_valid (UInt64_add x y)"
  by (simp add: UInt64_add_def Let_def)

lemma UInt64_add_value:
  assumes "UInt64_valid x" "UInt64_valid y"
  shows "UInt64_value (UInt64_add x y) = (UInt64_value x + UInt64_value y) mod 2 ^ 64"
proof -
  define c :: int where "c = (if lo x + lo y \<ge> 0x100000000 then 1 else 0)"
  have l: "lo (UInt64_add x y) = (lo x + lo y) mod 2 ^ 32"
    by (simp add: UInt64_add_def Let_def js_and_all_ones) (simp add: toUint32_def)
  have "hi (UInt64_add x y) = toUint32 (toUint32 (hi x + hi y) + c)"
    by (simp add: UInt64_add_def Let_def js_and_all_ones c_def)
  also have "\<dots> = (hi x + hi y + c) mod 2 ^ 32"
    by (simp add: toUint32_def mod_add_left_eq)
  finally have h: "hi (UInt64_add x y) = (hi x + hi y + c) mod 2 ^ 32" .
  have "lo x + lo y = c * 2 ^ 32 + (lo x + lo y) mod 2 ^ 32"
  proof (cases "lo x + lo y \<ge> 0x100000000")
    case True
    have "(lo x + lo y) mod 4294967296 = (lo x + lo y - 4294967296) mod 4294967296"
      by (simp only: minus_mod_self2)
    also have "\<dots> = lo x + lo y - 4294967296"
      using True assms by (intro mod_pos_pos_trivial) (simp_all add: UInt64_valid_def)
    finally show ?thesis using True by (simp add: c_def)
  next
    case False
    then have "(lo x + lo y) mod 4294967296 = lo x + lo y"
      using assms by (intro mod_pos_pos_trivial) (simp_all add: UInt64_valid_def)
    then show ?thesis using False by (simp add: c_def)
  qed
  then have "UInt64_value x + UInt64_value y
               = (hi x + hi y + c) * 2 ^ 32 + (lo x + lo y) mod 2 ^ 32"
    by (simp add: UInt64_value_def algebra_simps)
  then have "(UInt64_value x + UInt64_value y) mod 2 ^ 64
               = ((hi x + hi y + c) mod 2 ^ 32) * 2 ^ 32 + (lo x + lo y) mod 2 ^ 32"
    by (simp only: join_mod_64 [of "(lo x + lo y) mod 2 ^ 32"] pos_mod_sign pos_mod_bound
        zero_less_numeral zero_less_power)
  then show ?thesis
    by (simp add: UInt64_value_def l h)
qed

lemma UInt64_sub_valid [simp]: "UInt64_valid (UInt64_sub x y)"
  by (simp add: UInt64_sub_def Let_def)

lemma UInt64_sub_value:
  assumes "UInt64_valid x" "UInt64_valid y"
  shows "UInt64_value (UInt64_sub x y) = (UInt64_value x - UInt64_value y) mod 2 ^ 64"
proof -
  define b :: int where "b = (if lo x - lo y < 0 then 1 else 0)"
  have l: "lo (UInt64_sub x y) = (lo x - lo y) mod 2 ^ 32"
    by (simp add: UInt64_sub_def Let_def js_and_all_ones) (simp add: toUint32_def)
  have "hi (UInt64_sub x y) = toUint32 (toUint32 (hi x - hi y) - b)"
    by (simp add: UInt64_sub_def Let_def js_and_all_ones b_def)
  also have "\<dots> = (hi x - hi y - b) mod 2 ^ 32"
    by (simp add: toUint32_def mod_diff_left_eq)
  finally have h: "hi (UInt64_sub x y) = (hi x - hi y - b) mod 2 ^ 32" .
  have "lo x - lo y = (lo x - lo y) mod 2 ^ 32 - b * 2 ^ 32"
  proof (cases "lo x - lo y < 0")
    case True
    have "(lo x - lo y) mod 4294967296 = (lo x - lo y + 4294967296) mod 4294967296"
      by (simp only: mod_add_self2)
    also have "\<dots> = lo x - lo y + 4294967296"
      using True assms by (intro mod_pos_pos_trivial) (simp_all add: UInt64_valid_def)
    finally show ?thesis using True by (simp add: b_def)
  next
    case False
    then have "(lo x - lo y) mod 4294967296 = lo x - lo y"
      using assms by (intro mod_pos_pos_trivial) (simp_all add: UInt64_valid_def)
    then show ?thesis using False by (simp add: b_def)
  qed
  then have "UInt64_value x - UInt64_value y
               = (hi x - hi y - b) * 2 ^ 32 + (lo x - lo y) mod 2 ^ 32"
    by (simp add: UInt64_value_def algebra_simps)
  then have "(UInt64_value x - UInt64_value y) mod 2 ^ 64
               = ((hi x - hi y - b) mod 2 ^ 32) * 2 ^ 32 + (lo x - lo y) mod 2 ^ 32"
    by (simp only: join_mod_64 [of "(lo x - lo y) mod 2 ^ 32"] pos_mod_sign pos_mod_bound
        zero_less_numeral zero_less_power)
  then show ?thesis
    by (simp add: UInt64_value_def l h)
qed

text \<open>
  The first loop: the divisor \<open>d * 2 ^ j\<close> and the unit \<open>2 ^ j\<close> are doubled until the
  divisor has its top bit set, which happens before either overflows.
\<close>

lemma UInt64_div_align_correct:
  assumes d: "0 < d"
  shows "UInt64_valid D \<Longrightarrow> UInt64_valid U \<Longrightarrow> UInt64_value U = 2 ^ j \<Longrightarrow>
         UInt64_value D = d * 2 ^ j \<Longrightarrow>
         \<exists>D' U' k. UInt64_div_align D U = Some (D', U') \<and> UInt64_valid D' \<and> UInt64_valid U'
           \<and> UInt64_value U' = 2 ^ k \<and> UInt64_value D' = d * 2 ^ k
           \<and> 2 ^ 63 \<le> UInt64_value D'"
proof (induction "nat (2 ^ 64 - UInt64_value D)" arbitrary: D U j rule: less_induct)
  case less
  show ?case
  proof (cases "UInt64_msb D")
    case True
    then have "UInt64_div_align D U = Some (D, U)"
      by (subst UInt64_div_align.simps) simp
    moreover have "2 ^ 63 \<le> UInt64_value D"
      using True less.prems(1) by (simp add: UInt64_msb_value)
    ultimately show ?thesis using less.prems by blast
  next
    case False
    then have small: "UInt64_value D < 2 ^ 63"
      using less.prems(1) by (simp add: UInt64_msb_value)
    have pj: "(0 :: int) < 2 ^ j" by simp
    have "(2 :: int) ^ j * 1 \<le> 2 ^ j * d"
      using d by (intro mult_left_mono) simp_all
    then have "(2 :: int) ^ j \<le> d * 2 ^ j"
      by (simp only: mult_1_right mult.commute)
    then have uj: "(2 :: int) ^ j < 2 ^ 63"
      using small less.prems(4) by linarith
    have dpos: "0 < UInt64_value D"
      using d pj less.prems(4) by simp
    have vD: "UInt64_value (UInt64_leftShift D) = 2 * UInt64_value D"
    proof -
      have "(2 * UInt64_value D) mod 2 ^ 64 = 2 * UInt64_value D"
        using small dpos by (intro mod_pos_pos_trivial) simp_all
      then show ?thesis using less.prems(1) by (simp add: UInt64_leftShift_value)
    qed
    have vU: "UInt64_value (UInt64_leftShift U) = 2 ^ Suc j"
    proof -
      have "(2 * 2 ^ j) mod 2 ^ 64 = (2 :: int) * 2 ^ j"
        using uj pj by (intro mod_pos_pos_trivial) simp_all
      then show ?thesis using less.prems(2,3) by (simp add: UInt64_leftShift_value)
    qed
    have "nat (2 ^ 64 - UInt64_value (UInt64_leftShift D)) < nat (2 ^ 64 - UInt64_value D)"
      using vD dpos small by simp
    moreover have "UInt64_value (UInt64_leftShift D) = d * 2 ^ Suc j"
      using vD less.prems(4) by simp
    ultimately have "\<exists>D' U' k.
        UInt64_div_align (UInt64_leftShift D) (UInt64_leftShift U) = Some (D', U')
        \<and> UInt64_valid D' \<and> UInt64_valid U'
        \<and> UInt64_value U' = 2 ^ k \<and> UInt64_value D' = d * 2 ^ k
        \<and> 2 ^ 63 \<le> UInt64_value D'"
      using vU by (intro less.hyps [of "UInt64_leftShift D" "UInt64_leftShift U" "Suc j"]) simp_all
    moreover have "UInt64_div_align D U
                     = UInt64_div_align (UInt64_leftShift D) (UInt64_leftShift U)"
      using False by (subst UInt64_div_align.simps) simp
    ultimately show ?thesis by simp
  qed
qed

text \<open>
  One round of the second loop, with the unit at \<open>2 ^ j\<close> and the divisor at
  \<open>d * 2 ^ j\<close>: quotient times \<open>d\<close> plus remainder stays the dividend, and the
  remainder comes below the divisor.
\<close>

lemma UInt64_div_loop_step:
  assumes d: "0 < d" and x: "x < 2 ^ 64"
    and valid: "UInt64_valid Q" "UInt64_valid R" "UInt64_valid D" "UInt64_valid U"
    and unit: "UInt64_value U = 2 ^ j" and divisor: "UInt64_value D = d * 2 ^ j"
    and inv: "UInt64_value Q * d + UInt64_value R = x"
    and bound: "UInt64_value R < d * 2 ^ Suc j"
  shows "\<exists>Q1 R1. UInt64_div_loop Q R D U
                   = UInt64_div_loop Q1 R1 (UInt64_rightShift D) (UInt64_rightShift U)
           \<and> UInt64_valid Q1 \<and> UInt64_valid R1
           \<and> UInt64_value Q1 * d + UInt64_value R1 = x \<and> UInt64_value R1 < d * 2 ^ j"
proof -
  define Q1 where "Q1 = (if UInt64_cmp D R \<le> 0 then UInt64_add Q U else Q)"
  define R1 where "R1 = (if UInt64_cmp D R \<le> 0 then UInt64_sub R D else R)"
  have nz: "\<not> UInt64_zero U"
    using valid(4) unit by (simp add: UInt64_zero_value)
  have unfold: "UInt64_div_loop Q R D U
                  = UInt64_div_loop Q1 R1 (UInt64_rightShift D) (UInt64_rightShift U)"
    using nz by (subst UInt64_div_loop.simps) (simp add: Q1_def R1_def)
  have valid1: "UInt64_valid Q1" "UInt64_valid R1"
    using valid by (simp_all add: Q1_def R1_def)
  have rq: "0 \<le> UInt64_value Q" "0 \<le> UInt64_value R" "UInt64_value R < 2 ^ 64"
    using UInt64_value_range [OF valid(1)] UInt64_value_range [OF valid(2)] by simp_all
  have dj: "0 \<le> d * 2 ^ j" using d by simp
  have inv1: "UInt64_value Q1 * d + UInt64_value R1 = x \<and> UInt64_value R1 < d * 2 ^ j"
  proof (cases "UInt64_cmp D R \<le> 0")
    case True
    then have le: "d * 2 ^ j \<le> UInt64_value R"
      using valid divisor by (simp add: UInt64_cmp_value)
    have "(UInt64_value Q + 2 ^ j) * 1 \<le> (UInt64_value Q + 2 ^ j) * d"
      using d rq by (intro mult_left_mono) simp_all
    also have "\<dots> = UInt64_value Q * d + d * 2 ^ j"
      by (simp add: algebra_simps)
    also have "\<dots> \<le> x" using le inv by simp
    finally have "UInt64_value Q + 2 ^ j < 2 ^ 64" using x by simp
    then have "(UInt64_value Q + 2 ^ j) mod 2 ^ 64 = UInt64_value Q + 2 ^ j"
      using rq by (intro mod_pos_pos_trivial) simp_all
    then have q: "UInt64_value Q1 = UInt64_value Q + 2 ^ j"
      using True valid unit by (simp add: Q1_def UInt64_add_value)
    have "UInt64_value R - d * 2 ^ j < 2 ^ 64"
      using dj rq by linarith
    then have "(UInt64_value R - d * 2 ^ j) mod 2 ^ 64 = UInt64_value R - d * 2 ^ j"
      using le by (intro mod_pos_pos_trivial) simp_all
    then have r: "UInt64_value R1 = UInt64_value R - d * 2 ^ j"
      using True valid divisor by (simp add: R1_def UInt64_sub_value)
    show ?thesis
      using inv bound by (simp add: q r algebra_simps)
  next
    case False
    then have "UInt64_value R < d * 2 ^ j"
      using valid divisor by (simp add: UInt64_cmp_value)
    then show ?thesis using False inv by (simp add: Q1_def R1_def)
  qed
  show ?thesis using unfold valid1 inv1 by blast
qed

text \<open>The second loop returns, with the remainder below \<open>d\<close>.\<close>

lemma UInt64_div_loop_correct:
  assumes d: "0 < d" and x: "x < 2 ^ 64"
  shows "UInt64_valid Q \<Longrightarrow> UInt64_valid R \<Longrightarrow> UInt64_valid D \<Longrightarrow> UInt64_valid U \<Longrightarrow>
         UInt64_value U = 2 ^ j \<Longrightarrow> UInt64_value D = d * 2 ^ j \<Longrightarrow>
         UInt64_value Q * d + UInt64_value R = x \<Longrightarrow> UInt64_value R < d * 2 ^ Suc j \<Longrightarrow>
         \<exists>Q' R'. UInt64_div_loop Q R D U = Some (Q', R') \<and> UInt64_valid Q' \<and> UInt64_valid R'
           \<and> UInt64_value Q' * d + UInt64_value R' = x \<and> UInt64_value R' < d"
proof (induction j arbitrary: Q R D U)
  case 0
  from UInt64_div_loop_step [OF d x 0] obtain Q1 R1 where
    step: "UInt64_div_loop Q R D U
             = UInt64_div_loop Q1 R1 (UInt64_rightShift D) (UInt64_rightShift U)"
      "UInt64_valid Q1" "UInt64_valid R1"
      "UInt64_value Q1 * d + UInt64_value R1 = x" "UInt64_value R1 < d * 2 ^ 0"
    by blast
  have "UInt64_value (UInt64_rightShift U) = 0"
    using "0.prems"(4,5) by (simp add: UInt64_rightShift_value)
  then have "UInt64_zero (UInt64_rightShift U)"
    using "0.prems"(4) by (simp add: UInt64_zero_value)
  then have "UInt64_div_loop Q1 R1 (UInt64_rightShift D) (UInt64_rightShift U) = Some (Q1, R1)"
    by (subst UInt64_div_loop.simps) simp
  then show ?case using step by simp
next
  case (Suc j)
  from UInt64_div_loop_step [OF d x Suc.prems] obtain Q1 R1 where
    step: "UInt64_div_loop Q R D U
             = UInt64_div_loop Q1 R1 (UInt64_rightShift D) (UInt64_rightShift U)"
      "UInt64_valid Q1" "UInt64_valid R1"
      "UInt64_value Q1 * d + UInt64_value R1 = x" "UInt64_value R1 < d * 2 ^ Suc j"
    by blast
  have u: "UInt64_value (UInt64_rightShift U) = 2 ^ j"
    using Suc.prems(4,5) by (simp add: UInt64_rightShift_value)
  have "d * 2 ^ Suc j div 2 = d * 2 ^ j" by simp
  then have dv: "UInt64_value (UInt64_rightShift D) = d * 2 ^ j"
    using Suc.prems(3,6) by (simp only: UInt64_rightShift_value)
  have "\<exists>Q' R'. UInt64_div_loop Q1 R1 (UInt64_rightShift D) (UInt64_rightShift U) = Some (Q', R')
          \<and> UInt64_valid Q' \<and> UInt64_valid R'
          \<and> UInt64_value Q' * d + UInt64_value R' = x \<and> UInt64_value R' < d"
    using step(2-5) u dv Suc.prems(3,4) by (intro Suc.IH) simp_all
  then show ?case using step(1) by simp
qed

text \<open>
  C7. Division contract of \<open>UInt64.div\<close>. Dividing by 0 returns the empty array. For
  every \<open>UInt64\<close> \<open>x\<close> whose halves are unsigned 32-bit numbers and every divisor \<open>d\<close>
  with \<open>0 < d < 2 ^ 32\<close>, both loops end and the method returns a quotient and a
  remainder, again with unsigned 32-bit halves, such that the value of \<open>x\<close> is the
  value of the quotient times \<open>d\<close> plus the value of the remainder, and the value of
  the remainder is at least 0 and less than \<open>d\<close>.
\<close>

theorem UInt64_div_contract:
  "UInt64_div 0 x = Some [] \<and>
   (UInt64_valid x \<and> 0 < d \<and> d < 2 ^ 32 \<longrightarrow>
      (\<exists>q r. UInt64_div d x = Some [q, r] \<and> UInt64_valid q \<and> UInt64_valid r
         \<and> UInt64_value x = UInt64_value q * d + UInt64_value r
         \<and> 0 \<le> UInt64_value r \<and> UInt64_value r < d))"
proof (intro conjI impI)
  show "UInt64_div 0 x = Some []" by (simp add: UInt64_div_def)
next
  assume a: "UInt64_valid x \<and> 0 < d \<and> d < 2 ^ 32"
  then have d: "0 < d" and x: "UInt64_valid x" by simp_all
  define D0 where "D0 = \<lparr>lo = d, hi = 0\<rparr>"
  define U0 where "U0 = \<lparr>lo = 1, hi = 0 :: int\<rparr>"
  define Q0 where "Q0 = \<lparr>lo = 0, hi = 0 :: int\<rparr>"
  define R0 where "R0 = \<lparr>lo = lo x, hi = hi x\<rparr>"
  have D0: "UInt64_valid D0" "UInt64_value D0 = d * 2 ^ 0"
    using a by (simp_all add: D0_def UInt64_valid_def UInt64_value_def)
  have U0: "UInt64_valid U0" "UInt64_value U0 = 2 ^ 0"
    by (simp_all add: U0_def UInt64_valid_def UInt64_value_def)
  have Q0: "UInt64_valid Q0" "UInt64_value Q0 = 0"
    by (simp_all add: Q0_def UInt64_valid_def UInt64_value_def)
  have R0: "UInt64_valid R0" "UInt64_value R0 = UInt64_value x"
    using x by (simp_all add: R0_def UInt64_valid_def UInt64_value_def)
  have xr: "UInt64_value x < 2 ^ 64"
    using UInt64_value_range [OF x] by simp
  from UInt64_div_align_correct [OF d D0(1) U0(1) U0(2) D0(2)]
  obtain D' U' k where align: "UInt64_div_align D0 U0 = Some (D', U')"
      "UInt64_valid D'" "UInt64_valid U'" "UInt64_value U' = 2 ^ k"
      "UInt64_value D' = d * 2 ^ k" "2 ^ 63 \<le> UInt64_value D'"
    by blast
  have "UInt64_value R0 < d * 2 ^ Suc k"
    using align(5,6) xr R0(2) by simp
  moreover have "UInt64_value Q0 * d + UInt64_value R0 = UInt64_value x"
    using Q0(2) R0(2) by simp
  ultimately obtain Q' R' where loop: "UInt64_div_loop Q0 R0 D' U' = Some (Q', R')"
      "UInt64_valid Q'" "UInt64_valid R'"
      "UInt64_value Q' * d + UInt64_value R' = UInt64_value x" "UInt64_value R' < d"
    using UInt64_div_loop_correct [OF d xr Q0(1) R0(1) align(2,3,4,5)] by blast
  have "UInt64_div d x = Some [Q', R']"
    using d align(1) loop(1) by (simp add: UInt64_div_def D0_def U0_def Q0_def R0_def)
  moreover have "0 \<le> UInt64_value R'"
    using UInt64_value_range [OF loop(3)] by simp
  ultimately show "\<exists>q r. UInt64_div d x = Some [q, r] \<and> UInt64_valid q \<and> UInt64_valid r
         \<and> UInt64_value x = UInt64_value q * d + UInt64_value r
         \<and> 0 \<le> UInt64_value r \<and> UInt64_value r < d"
    using loop(2-5) by auto
qed

theorem UInt64_div_contract_witness:
  "\<exists>q r. UInt64_div 10 \<lparr>lo = 4294967295, hi = 4294967295\<rparr> = Some [q, r]
     \<and> UInt64_valid q \<and> UInt64_valid r
     \<and> UInt64_value q * 10 + UInt64_value r = 18446744073709551615
     \<and> 0 \<le> UInt64_value r \<and> UInt64_value r < 10"
  using UInt64_div_contract [of "\<lparr>lo = 4294967295, hi = 4294967295\<rparr>" 10]
  by (simp add: UInt64_valid_def UInt64_value_def)

end
